theory Spec2Isabelle
  imports Complex_Main "HOL-Library.AList"
begin

section \<open>Conventions of the embedding\<close>

text \<open>
  The development embeds the geometry engine of the hand-drawn table editor:
  \<^verbatim>\<open>wrapText\<close>, \<^verbatim>\<open>colWidths\<close>, \<^verbatim>\<open>rowHeights\<close>, \<^verbatim>\<open>xPositions\<close>, \<^verbatim>\<open>yPositions\<close>,
  \<^verbatim>\<open>getCellAt\<close> and \<^verbatim>\<open>paths\<close> of the \<^verbatim>\<open>HandDrawnTable\<close> component, \<^verbatim>\<open>getRoughPath\<close> of the
  sketch utilities, and \<^verbatim>\<open>getRange\<close>, \<^verbatim>\<open>removeRow\<close>, \<^verbatim>\<open>removeCol\<close>, \<^verbatim>\<open>mergeCells\<close> and
  \<^verbatim>\<open>unmergeCells\<close> of the \<^verbatim>\<open>DataEditor\<close> component.

  \<^item> A JavaScript \<^verbatim>\<open>number\<close> that holds a size or a coordinate is a \<^typ>\<open>real\<close>: rounding
    is outside the model. In the layout functions overflow and \<^verbatim>\<open>NaN\<close> are outside the
    model as well; \<^verbatim>\<open>getRoughPath\<close> computes with doubles that overflow to an infinity
    and turn into \<^verbatim>\<open>NaN\<close> as IEEE 754 says. An index or a span is a \<^typ>\<open>nat\<close>.
  \<^item> A string is a \<^typ>\<open>string\<close>; one \<^typ>\<open>char\<close> stands for one UTF-16 code unit, which is
    what \<^verbatim>\<open>.length\<close> counts.
  \<^item> Where the source would read an array slot that does not exist and carry on with
    \<^verbatim>\<open>undefined\<close> or \<^verbatim>\<open>NaN\<close>, the model stops with \<open>Unmodelled\<close>; where the source
    throws a \<^verbatim>\<open>TypeError\<close> (a property read on \<^verbatim>\<open>undefined\<close>), the model returns
    \<open>TypeError\<close>.
  \<^item> \<^verbatim>\<open>Math.random()\<close> is a stream \<open>rnd :: nat \<Rightarrow> real\<close> together with the number of
    values drawn so far.
\<close>

datatype failure = TypeError | Unmodelled

section \<open>Strings\<close>

text \<open>
  \<^verbatim>\<open>String.prototype.split\<close> with a one-character separator. The result is never empty:
  \<^verbatim>\<open>"".split(sep)\<close> is \<^verbatim>\<open>[""]\<close>.
\<close>

fun split_from :: "char \<Rightarrow> string \<Rightarrow> string \<Rightarrow> string list" where
  "split_from sep cur [] = [cur]"
| "split_from sep cur (c # cs) =
     (if c = sep then cur # split_from sep [] cs else split_from sep (cur @ [c]) cs)"

definition split :: "char \<Rightarrow> string \<Rightarrow> string list" where
  "split sep s = split_from sep [] s"

text \<open>\<^verbatim>\<open>Array.prototype.join\<close> with a one-character separator.\<close>

fun join :: "char \<Rightarrow> string list \<Rightarrow> string" where
  "join sep [] = []"
| "join sep [w] = w"
| "join sep (w # v # ws) = w @ sep # join sep (v # ws)"

section \<open>Text wrapping\<close>

text \<open>
  \<^verbatim>\<open>
  const wrapText = (text, maxWidth, fontSize) => {
    if (!text) return [];
    const paragraphs = text.split('\n');
    const finalLines = [];
    const charWidth = fontSize * 0.55;
    paragraphs.forEach(paragraph => {
      if (!paragraph) { finalLines.push(' '); return; }
      const words = paragraph.split(' ');
      let currentLine = words[0];
      for (let i = 1; i < words.length; i++) {
        const word = words[i];
        const width = (currentLine.length + 1 + word.length) * charWidth;
        if (width < maxWidth) { currentLine += ' ' + word; }
        else { finalLines.push(currentLine); currentLine = word; }
      }
      finalLines.push(currentLine);
    });
    return finalLines;
  };
  \<close>
  \<open>wrapWords\<close> is the \<^verbatim>\<open>for\<close> loop with the final push: it returns the lines pushed from
  the current line \<open>cur\<close> and the words still to place. \<open>wrapParagraph\<close> is the callback
  of \<^verbatim>\<open>forEach\<close>; the lines it pushes are appended to \<^verbatim>\<open>finalLines\<close> in order.
\<close>

fun wrapWords :: "real \<Rightarrow> real \<Rightarrow> string \<Rightarrow> string list \<Rightarrow> string list" where
  "wrapWords charWidth maxWidth cur [] = [cur]"
| "wrapWords charWidth maxWidth cur (word # ws) =
     (if real (length cur + 1 + length word) * charWidth < maxWidth
      then wrapWords charWidth maxWidth (cur @ CHR '' '' # word) ws
      else cur # wrapWords charWidth maxWidth word ws)"

definition wrapParagraph :: "real \<Rightarrow> real \<Rightarrow> string \<Rightarrow> string list" where
  "wrapParagraph charWidth maxWidth paragraph =
     (if paragraph = [] then ['' '']
      else (case split CHR '' '' paragraph of
              [] \<Rightarrow> []
            | w0 # ws \<Rightarrow> wrapWords charWidth maxWidth w0 ws))"

definition wrapText :: "string \<Rightarrow> real \<Rightarrow> real \<Rightarrow> string list" where
  "wrapText text maxWidth fontSize =
     (if text = [] then []
      else concat (map (wrapParagraph (fontSize * 0.55) maxWidth)
                       (split CHR ''\<newline>'' text)))"

text \<open>
  The words of a line or of a paragraph: the non-empty pieces between spaces.
  \<open>overflowing\<close> says that a word does not pass the width test even on an empty line.
\<close>

definition words_of :: "string \<Rightarrow> string list" where
  "words_of s = filter (\<lambda>w. w \<noteq> []) (split CHR '' '' s)"

definition overflowing :: "real \<Rightarrow> real \<Rightarrow> string \<Rightarrow> bool" where
  "overflowing maxWidth fontSize w \<longleftrightarrow> maxWidth \<le> real (length w + 1) * (fontSize * 0.55)"

text \<open>A line is good when a word that overflows stands alone on it.\<close>

definition good_line :: "real \<Rightarrow> real \<Rightarrow> string \<Rightarrow> bool" where
  "good_line maxWidth fontSize l \<longleftrightarrow>
     (\<forall>w \<in> set (words_of l). overflowing maxWidth fontSize w \<longrightarrow> l = w)"

section \<open>Data model\<close>

text \<open>
  \<^verbatim>\<open>
  export interface TableCell {
    id: string; value: string; rowSpan: number; colSpan: number;
    hidden?: boolean; ownerRow?: number; ownerCol?: number;
  }
  export type TableData = TableCell[][];
  \<close>
  The fields \<^verbatim>\<open>id\<close> and \<^verbatim>\<open>value\<close> are \<open>id_cell\<close> and \<open>value_cell\<close>. The source only tests
  \<^verbatim>\<open>hidden\<close> for truthiness, so an absent flag is \<open>False\<close>. An absent or deleted owner
  coordinate is \<open>None\<close>.
\<close>

record TableCell =
  id_cell :: string
  value_cell :: string
  rowSpan :: nat
  colSpan :: nat
  hidden :: bool
  ownerRow :: "nat option"
  ownerCol :: "nat option"

type_synonym TableData = "TableCell list list"

text \<open>
  A \<^verbatim>\<open>Record<number, number>\<close> is an association list read with \<^const>\<open>map_of\<close>; the
  assignment \<^verbatim>\<open>m[k] = v\<close> is \<^const>\<open>AList.update\<close>. The keys are row or column indices.
\<close>

type_synonym overrides = "(nat \<times> real) list"

record TableConfig =
  roughness :: real
  bowing :: real
  stroke :: string
  strokeWidth :: real
  padding :: real
  textColor :: string
  fill :: string
  fillColor :: string
  widthScale :: real
  customColumnWidths :: overrides
  customRowHeights :: overrides

text \<open>
  The defaults of the application (\<^verbatim>\<open>DEFAULT_CONFIG\<close> and \<^verbatim>\<open>DEFAULT_DATA\<close>) and the cell the
  generation service and the editor create for a text: spans 1, not hidden, no owner.
\<close>

definition DEFAULT_CONFIG :: TableConfig where
  "DEFAULT_CONFIG =
     \<lparr>roughness = 1.5, bowing = 1.2, stroke = ''#2d3748'', strokeWidth = 2, padding = 10,
      textColor = ''#1a202c'', fill = ''hachure'', fillColor = ''#60a5fa'', widthScale = 1,
      customColumnWidths = [], customRowHeights = []\<rparr>"

definition plainCell :: "string \<Rightarrow> string \<Rightarrow> TableCell" where
  "plainCell i v =
     \<lparr>id_cell = i, value_cell = v, rowSpan = 1, colSpan = 1, hidden = False,
      ownerRow = None, ownerCol = None\<rparr>"

definition DEFAULT_DATA :: TableData where
  "DEFAULT_DATA =
     [[plainCell ''1'' ''Feature'', plainCell ''2'' ''Basic'', plainCell ''3'' ''Pro''],
      [plainCell ''4'' ''Users'', plainCell ''5'' ''1'', plainCell ''6'' ''Unlimited''],
      [plainCell ''7'' ''Storage'', plainCell ''8'' ''5GB'', plainCell ''9'' ''1TB''],
      [plainCell ''10'' ''Support'', plainCell ''11'' ''Email'', plainCell ''12'' ''24/7 Live'']]"

text \<open>The state of the data editor that its operations read and replace.\<close>

record Selection =
  start :: "nat \<times> nat"
  end_sel :: "nat \<times> nat"

record Range =
  minR :: nat
  maxR :: nat
  minC :: nat
  maxC :: nat

record EditorState =
  data :: TableData
  config :: TableConfig
  selection :: "Selection option"

section \<open>Removing a row or a column\<close>

text \<open>
  \<^verbatim>\<open>
  const removeRow = (index) => {
    const newData = data.filter((_, i) => i !== index);
    setData(newData);
    const newHeights = {};
    Object.keys(config.customRowHeights || {}).forEach(key => {
        const k = parseInt(key);
        if (k < index) newHeights[k] = config.customRowHeights[k];
        if (k > index) newHeights[k - 1] = config.customRowHeights[k];
    });
    setConfig(prev => ({ ...prev, customRowHeights: newHeights }));
    setSelection(null);
  };
  \<close>
  \<open>filter_index\<close> is \<^verbatim>\<open>xs.filter((_, i) => i !== index)\<close>. \<open>shiftKey\<close> is the callback
  of \<^verbatim>\<open>forEach\<close> and \<open>shiftKeys\<close> the loop over the keys of the old map.
\<close>

definition filter_index :: "nat \<Rightarrow> 'a list \<Rightarrow> 'a list" where
  "filter_index index xs = map fst (filter (\<lambda>(x, i). i \<noteq> index) (zip xs [0..<length xs]))"

definition shiftKey :: "nat \<Rightarrow> overrides \<Rightarrow> nat \<Rightarrow> overrides \<Rightarrow> overrides" where
  "shiftKey index old k new =
     (case map_of old k of
        None \<Rightarrow> new
      | Some v \<Rightarrow>
          (let new1 = (if k < index then AList.update k v new else new)
           in if k > index then AList.update (k - 1) v new1 else new1))"

fun shiftKeys :: "nat \<Rightarrow> overrides \<Rightarrow> nat list \<Rightarrow> overrides \<Rightarrow> overrides" where
  "shiftKeys index old [] new = new"
| "shiftKeys index old (k # ks) new = shiftKeys index old ks (shiftKey index old k new)"

definition removeRow :: "nat \<Rightarrow> EditorState \<Rightarrow> EditorState" where
  "removeRow index st =
     (let newData = filter_index index (data st);
          newHeights = shiftKeys index (customRowHeights (config st))
                         (map fst (customRowHeights (config st))) []
      in st\<lparr>data := newData,
            config := (config st)\<lparr>customRowHeights := newHeights\<rparr>,
            selection := None\<rparr>)"

text \<open>
  \<^verbatim>\<open>
  const removeCol = (index) => {
    const newData = data.map(row => row.filter((_, i) => i !== index));
    if (newData.length === 0 || newData[0].length === 0) { setData([]); }
    else { setData(newData); }
    const shiftedWidths = {};
    Object.keys(config.customColumnWidths).forEach(key => {
        const k = parseInt(key);
        if (k < index) shiftedWidths[k] = config.customColumnWidths[k];
        if (k > index) shiftedWidths[k - 1] = config.customColumnWidths[k];
    });
    setConfig(prev => ({ ...prev, customColumnWidths: shiftedWidths }));
    setSelection(null);
  };
  \<close>
\<close>

definition removeCol :: "nat \<Rightarrow> EditorState \<Rightarrow> EditorState" where
  "removeCol index st =
     (let newData = map (filter_index index) (data st);
          shiftedWidths = shiftKeys index (customColumnWidths (config st))
                            (map fst (customColumnWidths (config st))) []
      in st\<lparr>data := (case newData of
                       [] \<Rightarrow> []
                     | row0 # rest \<Rightarrow> if row0 = [] then [] else newData),
            config := (config st)\<lparr>customColumnWidths := shiftedWidths\<rparr>,
            selection := None\<rparr>)"

section \<open>Merging and unmerging\<close>

text \<open>
  \<^verbatim>\<open>
  const getRange = () => {
    if (!selection) return null;
    const minR = Math.min(selection.start.r, selection.end.r);
    const maxR = Math.max(selection.start.r, selection.end.r);
    const minC = Math.min(selection.start.c, selection.end.c);
    const maxC = Math.max(selection.start.c, selection.end.c);
    return { minR, maxR, minC, maxC };
  };
  \<close>
\<close>

definition getRange :: "Selection option \<Rightarrow> Range option" where
  "getRange sel =
     (case sel of
        None \<Rightarrow> None
      | Some s \<Rightarrow>
          Some \<lparr>minR = min (fst (start s)) (fst (end_sel s)),
                maxR = max (fst (start s)) (fst (end_sel s)),
                minC = min (snd (start s)) (snd (end_sel s)),
                maxC = max (snd (start s)) (snd (end_sel s))\<rparr>)"

text \<open>
  The positions visited by \<^verbatim>\<open>for (r = r0; r < r1; r++) for (c = c0; c < c1; c++)\<close>, in the
  order of the visit (row by row).
\<close>

definition rect :: "nat \<Rightarrow> nat \<Rightarrow> nat \<Rightarrow> nat \<Rightarrow> (nat \<times> nat) list" where
  "rect r0 r1 c0 c1 = List.product [r0..<r1] [c0..<c1]"

definition in_grid :: "TableData \<Rightarrow> nat \<Rightarrow> nat \<Rightarrow> bool" where
  "in_grid d r c \<longleftrightarrow> r < length d \<and> c < length (d ! r)"

definition setCell :: "TableData \<Rightarrow> nat \<Rightarrow> nat \<Rightarrow> TableCell \<Rightarrow> TableData" where
  "setCell d r c x = d[r := (d ! r)[c := x]]"

text \<open>
  \<^verbatim>\<open>
  const mergeCells = () => {
    const range = getRange();
    if (!range) return;
    const { minR, maxR, minC, maxC } = range;
    if (minR === maxR && minC === maxC) return;
    const newData = data.map(row => row.map(cell => ({ ...cell })));
    let combinedValue = "";
    for (let r = minR; r <= maxR; r++) {
      for (let c = minC; c <= maxC; c++) {
        if (!newData[r][c].hidden && newData[r][c].value) {
            combinedValue += (combinedValue ? "\n" : "") + newData[r][c].value;
        }
      }
    }
    const master = newData[minR][minC];
    master.value = combinedValue;
    master.rowSpan = maxR - minR + 1;
    master.colSpan = maxC - minC + 1;
    master.hidden = false;
    delete master.ownerRow;
    delete master.ownerCol;
    for (let r = minR; r <= maxR; r++) {
      for (let c = minC; c <= maxC; c++) {
        if (r === minR && c === minC) continue;
        newData[r][c].hidden = true;
        newData[r][c].rowSpan = 1;
        newData[r][c].colSpan = 1;
        newData[r][c].ownerRow = minR;
        newData[r][c].ownerCol = minC;
        newData[r][c].value = "";
      }
    }
    setData(newData);
    setSelection({ start: { r: minR, c: minC }, end: { r: minR, c: minC } });
  };
  \<close>
  \<^verbatim>\<open>newData\<close> is a copy of every row and cell, so the writes touch nothing else.
  \<open>combineValues\<close> is the first pair of loops: reading \<^verbatim>\<open>newData[r][c].hidden\<close> outside the
  grid throws. \<open>hideCells\<close> is the second pair of loops; it runs only after the first pair
  has read every position of the rectangle.
\<close>

fun combineValues :: "TableData \<Rightarrow> (nat \<times> nat) list \<Rightarrow> string \<Rightarrow> failure + string" where
  "combineValues d [] combinedValue = Inr combinedValue"
| "combineValues d ((r, c) # ps) combinedValue =
     (if in_grid d r c then
        (if \<not> hidden (d ! r ! c) \<and> value_cell (d ! r ! c) \<noteq> []
         then combineValues d ps
                (combinedValue @ (if combinedValue \<noteq> [] then ''\<newline>'' else [])
                   @ value_cell (d ! r ! c))
         else combineValues d ps combinedValue)
      else Inl TypeError)"

fun hideCells :: "nat \<Rightarrow> nat \<Rightarrow> (nat \<times> nat) list \<Rightarrow> TableData \<Rightarrow> TableData" where
  "hideCells mR mC [] d = d"
| "hideCells mR mC ((r, c) # ps) d =
     (if r = mR \<and> c = mC then hideCells mR mC ps d
      else hideCells mR mC ps
             (setCell d r c
                ((d ! r ! c)\<lparr>hidden := True, rowSpan := 1, colSpan := 1,
                               ownerRow := Some mR, ownerCol := Some mC,
                               value_cell := []\<rparr>)))"

definition mergeCells :: "EditorState \<Rightarrow> failure + EditorState" where
  "mergeCells st =
     (case getRange (selection st) of
        None \<Rightarrow> Inr st
      | Some rg \<Rightarrow>
          if minR rg = maxR rg \<and> minC rg = maxC rg then Inr st
          else
            (let ps = rect (minR rg) (maxR rg + 1) (minC rg) (maxC rg + 1)
             in case combineValues (data st) ps [] of
                  Inl e \<Rightarrow> Inl e
                | Inr combinedValue \<Rightarrow>
                    (let master = (data st ! minR rg ! minC rg)
                           \<lparr>value_cell := combinedValue,
                            rowSpan := maxR rg - minR rg + 1,
                            colSpan := maxC rg - minC rg + 1,
                            hidden := False, ownerRow := None, ownerCol := None\<rparr>;
                         newData = hideCells (minR rg) (minC rg) ps
                                     (setCell (data st) (minR rg) (minC rg) master)
                     in Inr (st\<lparr>data := newData,
                                 selection := Some \<lparr>start = (minR rg, minC rg),
                                                    end_sel = (minR rg, minC rg)\<rparr>\<rparr>))))"

text \<open>
  \<^verbatim>\<open>
  const unmergeCells = () => {
    const range = getRange();
    if (!range) return;
    const { minR, minC } = range;
    const cell = data[minR][minC];
    if (cell.rowSpan === 1 && cell.colSpan === 1) return;
    const newData = data.map(row => row.map(c => ({ ...c })));
    const rSpan = cell.rowSpan;
    const cSpan = cell.colSpan;
    newData[minR][minC].rowSpan = 1;
    newData[minR][minC].colSpan = 1;
    for (let r = minR; r < minR + rSpan; r++) {
      for (let c = minC; c < minC + cSpan; c++) {
         if (r === minR && c === minC) continue;
         newData[r][c].hidden = false;
         delete newData[r][c].ownerRow;
         delete newData[r][c].ownerCol;
      }
    }
    setData(newData);
  };
  \<close>
  Reading \<^verbatim>\<open>data[minR][minC].rowSpan\<close> and writing \<^verbatim>\<open>newData[r][c].hidden\<close> outside the grid
  throw.
\<close>

fun showCells :: "nat \<Rightarrow> nat \<Rightarrow> (nat \<times> nat) list \<Rightarrow> TableData \<Rightarrow> failure + TableData" where
  "showCells mR mC [] d = Inr d"
| "showCells mR mC ((r, c) # ps) d =
     (if r = mR \<and> c = mC then showCells mR mC ps d
      else if in_grid d r c then
        showCells mR mC ps
          (setCell d r c ((d ! r ! c)\<lparr>hidden := False, ownerRow := None, ownerCol := None\<rparr>))
      else Inl TypeError)"

definition unmergeCells :: "EditorState \<Rightarrow> failure + EditorState" where
  "unmergeCells st =
     (case getRange (selection st) of
        None \<Rightarrow> Inr st
      | Some rg \<Rightarrow>
          if \<not> in_grid (data st) (minR rg) (minC rg) then Inl TypeError
          else
            (let cell = data st ! minR rg ! minC rg
             in if rowSpan cell = 1 \<and> colSpan cell = 1 then Inr st
                else
                  (let rSpan = rowSpan cell;
                       cSpan = colSpan cell;
                       d1 = setCell (data st) (minR rg) (minC rg)
                              (cell\<lparr>rowSpan := 1, colSpan := 1\<rparr>)
                   in case showCells (minR rg) (minC rg)
                             (rect (minR rg) (minR rg + rSpan)
                                   (minC rg) (minC rg + cSpan)) d1 of
                        Inl e \<Rightarrow> Inl e
                      | Inr newData \<Rightarrow> Inr (st\<lparr>data := newData\<rparr>))))"

text \<open>
  The values that \<^verbatim>\<open>mergeCells\<close> joins: those of the visible cells with a non-empty text
  among the given positions, in the order of the positions.
\<close>

definition visibleValues :: "TableData \<Rightarrow> (nat \<times> nat) list \<Rightarrow> string list" where
  "visibleValues d ps =
     map (\<lambda>(r, c). value_cell (d ! r ! c))
       (filter (\<lambda>(r, c). \<not> hidden (d ! r ! c) \<and> value_cell (d ! r ! c) \<noteq> []) ps)"

text \<open>The 2 by 2 grid with the texts A, B, C, D, selected as a whole, and its merge.\<close>

definition gridABCD :: TableData where
  "gridABCD = [[plainCell ''1'' ''A'', plainCell ''2'' ''B''],
               [plainCell ''3'' ''C'', plainCell ''4'' ''D'']]"

text \<open>The writes of \<open>hideCells\<close> and of \<open>showCells\<close> to one cell, and the master cell of a merge.\<close>

definition hide :: "nat \<Rightarrow> nat \<Rightarrow> TableCell \<Rightarrow> TableCell" where
  "hide mR mC cell = cell\<lparr>hidden := True, rowSpan := 1, colSpan := 1,
                         ownerRow := Some mR, ownerCol := Some mC, value_cell := []\<rparr>"

definition shown :: "TableCell \<Rightarrow> TableCell" where
  "shown cell = cell\<lparr>hidden := False, ownerRow := None, ownerCol := None\<rparr>"

definition mergedMaster :: "TableData \<Rightarrow> Range \<Rightarrow> TableCell" where
  "mergedMaster d rg =
     (d ! minR rg ! minC rg)
       \<lparr>value_cell := join CHR ''\<newline>''
          (visibleValues d (rect (minR rg) (maxR rg + 1) (minC rg) (maxC rg + 1))),
        rowSpan := maxR rg - minR rg + 1,
        colSpan := maxC rg - minC rg + 1,
        hidden := False, ownerRow := None, ownerCol := None\<rparr>"

definition stateABCD :: EditorState where
  "stateABCD = \<lparr>data = gridABCD, config = DEFAULT_CONFIG,
                  selection = Some \<lparr>start = (0, 0), end_sel = (1, 1)\<rparr>\<rparr>"

definition mergedABCD :: TableData where
  "mergedABCD =
     [[\<lparr>id_cell = ''1'', value_cell = ''A\<newline>B\<newline>C\<newline>D'', rowSpan = 2, colSpan = 2,
        hidden = False, ownerRow = None, ownerCol = None\<rparr>,
       \<lparr>id_cell = ''2'', value_cell = [], rowSpan = 1, colSpan = 1,
        hidden = True, ownerRow = Some 0, ownerCol = Some 0\<rparr>],
      [\<lparr>id_cell = ''3'', value_cell = [], rowSpan = 1, colSpan = 1,
        hidden = True, ownerRow = Some 0, ownerCol = Some 0\<rparr>,
       \<lparr>id_cell = ''4'', value_cell = [], rowSpan = 1, colSpan = 1,
        hidden = True, ownerRow = Some 0, ownerCol = Some 0\<rparr>]]"

section \<open>Column widths, row heights and offsets\<close>

text \<open>
  \<^verbatim>\<open>
  const baseCellWidth = 120;
  const basePadding = config.padding;
  const colWidths = useMemo(() => {
    if (data.length === 0) return [];
    const autoWidths = new Array(data[0].length).fill(baseCellWidth);
    data.forEach(row => {
      row.forEach((cell, i) => {
        if (cell.colSpan === 1 && !cell.hidden) {
             const maxSegmentLen = Math.max(...cell.value.split('\n').map(s => s.length));
             const estimated = Math.min(250, Math.max(baseCellWidth, (maxSegmentLen * 9)));
             autoWidths[i] = Math.max(autoWidths[i], estimated);
        }
      });
    });
    return autoWidths.map((w, i) => {
        const custom = config.customColumnWidths?.[i];
        const base = custom !== undefined ? custom : w;
        return base * (config.widthScale || 1);
    });
  }, [data, config.customColumnWidths, config.widthScale]);
  \<close>
  \<open>colRow\<close> is the inner \<^verbatim>\<open>forEach\<close> from column \<open>i\<close> on and \<open>colRows\<close> the outer one. In a
  row longer than the first, \<^verbatim>\<open>autoWidths[i]\<close> is read past the end of the array and the
  source goes on with \<^verbatim>\<open>NaN\<close>: the model stops with \<open>Unmodelled\<close>. \<open>scaleOr1\<close> is
  \<^verbatim>\<open>config.widthScale || 1\<close>: the only falsy real is 0.
\<close>

definition baseCellWidth :: real where
  "baseCellWidth = 120"

definition maxSegmentLen :: "string \<Rightarrow> nat" where
  "maxSegmentLen v = Max (set (map length (split CHR ''\<newline>'' v)))"

definition estimated :: "TableCell \<Rightarrow> real" where
  "estimated cell = min 250 (max baseCellWidth (real (maxSegmentLen (value_cell cell)) * 9))"

fun colRow :: "TableCell list \<Rightarrow> nat \<Rightarrow> real list \<Rightarrow> failure + real list" where
  "colRow [] i autoWidths = Inr autoWidths"
| "colRow (cell # cells) i autoWidths =
     (if colSpan cell = 1 \<and> \<not> hidden cell then
        (if i < length autoWidths
         then colRow cells (Suc i) (autoWidths[i := max (autoWidths ! i) (estimated cell)])
         else Inl Unmodelled)
      else colRow cells (Suc i) autoWidths)"

fun colRows :: "TableData \<Rightarrow> real list \<Rightarrow> failure + real list" where
  "colRows [] autoWidths = Inr autoWidths"
| "colRows (row # rows) autoWidths =
     (case colRow row 0 autoWidths of
        Inl e \<Rightarrow> Inl e
      | Inr autoWidths' \<Rightarrow> colRows rows autoWidths')"

definition scaleOr1 :: "TableConfig \<Rightarrow> real" where
  "scaleOr1 cfg = (if widthScale cfg = 0 then 1 else widthScale cfg)"

definition finalWidth :: "TableConfig \<Rightarrow> real \<Rightarrow> nat \<Rightarrow> real" where
  "finalWidth cfg w i =
     (let base = (case map_of (customColumnWidths cfg) i of Some custom \<Rightarrow> custom | None \<Rightarrow> w)
      in base * scaleOr1 cfg)"

definition colWidths :: "TableData \<Rightarrow> TableConfig \<Rightarrow> failure + real list" where
  "colWidths d cfg =
     (case d of
        [] \<Rightarrow> Inr []
      | row0 # rest \<Rightarrow>
          (case colRows d (replicate (length row0) baseCellWidth) of
             Inl e \<Rightarrow> Inl e
           | Inr autoWidths \<Rightarrow>
               Inr (map (\<lambda>(w, i). finalWidth cfg w i)
                        (zip autoWidths [0..<length autoWidths]))))"

text \<open>
  \<^verbatim>\<open>
  const rowHeights = useMemo(() => {
    return data.map((row, rowIndex) => {
        if (config.customRowHeights?.[rowIndex]) {
            return config.customRowHeights[rowIndex];
        }
        let maxLines = 1;
        const fontSize = rowIndex === 0 ? 20 : 16;
        row.forEach((cell, colIndex) => {
            if (cell.hidden || cell.rowSpan > 1) return;
            let cellWidth = colWidths[colIndex];
            if (cell.colSpan > 1) {
                for(let k=1; k < cell.colSpan; k++) {
                    cellWidth += colWidths[colIndex + k];
                }
            }
            const contentWidth = Math.max(0, cellWidth - (basePadding * 2));
            const lines = wrapText(cell.value, contentWidth, fontSize);
            maxLines = Math.max(maxLines, lines.length);
        });
        const calculatedHeight = (maxLines * (fontSize * 1.4)) + (basePadding * 2);
        return Math.max(50, calculatedHeight);
    });
  }, [data, colWidths, config.customRowHeights, basePadding]);
  \<close>
  \<open>spanWidth\<close> is the loop over \<open>k\<close>, \<open>rowLines\<close> the \<^verbatim>\<open>forEach\<close> over the cells of a row from
  column \<open>colIndex\<close> on, \<open>rowHeight\<close> the callback of \<^verbatim>\<open>data.map\<close> and \<open>rowHeightsFrom\<close> the
  \<^verbatim>\<open>map\<close> from row \<open>rowIndex\<close> on. A read of \<^verbatim>\<open>colWidths\<close> past its end gives \<^verbatim>\<open>NaN\<close> in the
  source and \<open>Unmodelled\<close> here; the array \<^verbatim>\<open>colWidths\<close> is the parameter \<open>widths\<close>.
  \<open>truthyHeight\<close> is the test
  \<^verbatim>\<open>if (config.customRowHeights?.[rowIndex])\<close>: an absent entry and the entry 0 are falsy.
\<close>

fun spanWidth :: "real list \<Rightarrow> nat \<Rightarrow> nat list \<Rightarrow> real \<Rightarrow> failure + real" where
  "spanWidth widths colIndex [] cellWidth = Inr cellWidth"
| "spanWidth widths colIndex (k # ks) cellWidth =
     (if colIndex + k < length widths
      then spanWidth widths colIndex ks (cellWidth + widths ! (colIndex + k))
      else Inl Unmodelled)"

definition cellWidthOf :: "real list \<Rightarrow> TableCell \<Rightarrow> nat \<Rightarrow> failure + real" where
  "cellWidthOf widths cell colIndex =
     (if colIndex < length widths then
        (if colSpan cell > 1
         then spanWidth widths colIndex [1..<colSpan cell] (widths ! colIndex)
         else Inr (widths ! colIndex))
      else Inl Unmodelled)"

fun rowLines ::
  "real list \<Rightarrow> real \<Rightarrow> real \<Rightarrow> TableCell list \<Rightarrow> nat \<Rightarrow> nat \<Rightarrow> failure + nat" where
  "rowLines widths basePadding fontSize [] colIndex maxLines = Inr maxLines"
| "rowLines widths basePadding fontSize (cell # cells) colIndex maxLines =
     (if hidden cell \<or> rowSpan cell > 1
      then rowLines widths basePadding fontSize cells (Suc colIndex) maxLines
      else
        (case cellWidthOf widths cell colIndex of
           Inl e \<Rightarrow> Inl e
         | Inr cellWidth \<Rightarrow>
             (let contentWidth = max 0 (cellWidth - basePadding * 2);
                  lines = wrapText (value_cell cell) contentWidth fontSize
              in rowLines widths basePadding fontSize cells (Suc colIndex)
                   (max maxLines (length lines)))))"

definition truthyHeight :: "TableConfig \<Rightarrow> nat \<Rightarrow> real option" where
  "truthyHeight cfg rowIndex =
     (case map_of (customRowHeights cfg) rowIndex of
        None \<Rightarrow> None
      | Some h \<Rightarrow> if h = 0 then None else Some h)"

definition rowHeight :: "real list \<Rightarrow> TableConfig \<Rightarrow> TableCell list \<Rightarrow> nat \<Rightarrow> failure + real" where
  "rowHeight widths cfg row rowIndex =
     (case truthyHeight cfg rowIndex of
        Some h \<Rightarrow> Inr h
      | None \<Rightarrow>
          (let fontSize = (if rowIndex = 0 then 20 else 16)
           in case rowLines widths (padding cfg) fontSize row 0 1 of
                Inl e \<Rightarrow> Inl e
              | Inr maxLines \<Rightarrow>
                  (let calculatedHeight = real maxLines * (fontSize * 1.4) + padding cfg * 2
                   in Inr (max 50 calculatedHeight))))"

fun rowHeightsFrom ::
  "real list \<Rightarrow> TableConfig \<Rightarrow> TableData \<Rightarrow> nat \<Rightarrow> failure + real list" where
  "rowHeightsFrom widths cfg [] rowIndex = Inr []"
| "rowHeightsFrom widths cfg (row # rows) rowIndex =
     (case rowHeight widths cfg row rowIndex of
        Inl e \<Rightarrow> Inl e
      | Inr h \<Rightarrow>
          (case rowHeightsFrom widths cfg rows (Suc rowIndex) of
             Inl e \<Rightarrow> Inl e
           | Inr hs \<Rightarrow> Inr (h # hs)))"

definition rowHeights :: "TableData \<Rightarrow> real list \<Rightarrow> TableConfig \<Rightarrow> failure + real list" where
  "rowHeights d widths cfg = rowHeightsFrom widths cfg d 0"

text \<open>
  \<^verbatim>\<open>
  const xPositions = useMemo(() => {
      const pos = [0];
      colWidths.forEach(w => pos.push(pos[pos.length - 1] + w));
      return pos;
  }, [colWidths]);
  const totalWidth = xPositions[xPositions.length - 1];
  \<close>
  and the same for \<^verbatim>\<open>yPositions\<close> and \<^verbatim>\<open>totalHeight\<close> from \<^verbatim>\<open>rowHeights\<close>. \<open>positionsFrom\<close>
  returns the last position pushed, \<open>lastPos\<close>, and the positions still to push.
\<close>

fun positionsFrom :: "real \<Rightarrow> real list \<Rightarrow> real list" where
  "positionsFrom lastPos [] = [lastPos]"
| "positionsFrom lastPos (w # ws) = lastPos # positionsFrom (lastPos + w) ws"

definition xPositions :: "real list \<Rightarrow> real list" where
  "xPositions widths = positionsFrom 0 widths"

definition yPositions :: "real list \<Rightarrow> real list" where
  "yPositions heights = positionsFrom 0 heights"

text \<open>
  The number of columns the renderer uses (\<^verbatim>\<open>data[0]?.length || 0\<close>), and the invariant of
  the data model that every row has as many cells as the first.
\<close>

definition ncols :: "TableData \<Rightarrow> nat" where
  "ncols d = (case d of [] \<Rightarrow> 0 | row0 # rest \<Rightarrow> length row0)"

definition rectangular :: "TableData \<Rightarrow> bool" where
  "rectangular d \<longleftrightarrow> (\<forall>row \<in> set d. length row = ncols d)"

text \<open>
  The column width in the words of the specification. \<open>columnEstimates\<close> lists the
  estimates \<open>min 250 (max 120 (9 * longest line))\<close> of the visible cells of column \<open>i\<close>
  with column span 1. \<open>colWidth_claimed\<close> multiplies the chosen base value by the scale
  factor; \<open>colWidth_amended\<close> multiplies by 1 when the factor is 0.
\<close>

definition columnEstimates :: "TableData \<Rightarrow> nat \<Rightarrow> real list" where
  "columnEstimates d i =
     map (\<lambda>cell. min 250 (max 120 (real (maxSegmentLen (value_cell cell)) * 9)))
       (filter (\<lambda>cell. \<not> hidden cell \<and> colSpan cell = 1) (map (\<lambda>row. row ! i) d))"

definition colWidth_claimed :: "TableData \<Rightarrow> TableConfig \<Rightarrow> nat \<Rightarrow> real" where
  "colWidth_claimed d cfg i =
     (case map_of (customColumnWidths cfg) i of
        Some custom \<Rightarrow> custom
      | None \<Rightarrow> Max (set (120 # columnEstimates d i))) * widthScale cfg"

definition colWidth_amended :: "TableData \<Rightarrow> TableConfig \<Rightarrow> nat \<Rightarrow> real" where
  "colWidth_amended d cfg i =
     (case map_of (customColumnWidths cfg) i of
        Some custom \<Rightarrow> custom
      | None \<Rightarrow> Max (set (120 # columnEstimates d i)))
     * (if widthScale cfg = 0 then 1 else widthScale cfg)"

text \<open>The grid with the single cell A.\<close>

definition gridA :: TableData where
  "gridA = [[plainCell ''1'' ''A'']]"

text \<open>
  The invariants of the data model that the row heights rely on: the grid is rectangular,
  every span is at least 1, and no cell spans columns beyond the last.
\<close>

definition spans_in_grid :: "TableData \<Rightarrow> bool" where
  "spans_in_grid d \<longleftrightarrow>
     rectangular d \<and>
     (\<forall>row \<in> set d. \<forall>(cell, c) \<in> set (zip row [0..<length row]).
        1 \<le> rowSpan cell \<and> 1 \<le> colSpan cell \<and> c + colSpan cell \<le> ncols d)"

text \<open>
  The row height in the words of the specification. \<open>effectiveWidth\<close> is the sum of the
  widths of the \<open>n\<close> columns from column \<open>c\<close> on. \<open>lineCountsFrom\<close> lists, for the visible
  cells with row span 1 among \<open>cells\<close> (which stand at the columns \<open>c0\<close>, \<open>c0 + 1\<close>, ...),
  the number of lines of the text wrapped at the effective width minus twice the padding.
  \<open>rowHeight_claimed\<close> takes any override as it is. \<open>rowHeight_computed\<close> is the height
  that the source is shown to resolve, which passes over the override 0.
\<close>

definition effectiveWidth :: "real list \<Rightarrow> nat \<Rightarrow> nat \<Rightarrow> real" where
  "effectiveWidth widths c n = sum_list (take n (drop c widths))"

definition lineCountsFrom ::
  "real list \<Rightarrow> real \<Rightarrow> real \<Rightarrow> TableCell list \<Rightarrow> nat \<Rightarrow> nat list" where
  "lineCountsFrom widths pad fontSize cells c0 =
     map (\<lambda>(cell, c). length (wrapText (value_cell cell)
                          (effectiveWidth widths c (colSpan cell) - 2 * pad) fontSize))
       (filter (\<lambda>(cell, c). \<not> hidden cell \<and> rowSpan cell = 1)
          (zip cells [c0..<c0 + length cells]))"

definition autoHeight :: "real list \<Rightarrow> TableConfig \<Rightarrow> TableCell list \<Rightarrow> nat \<Rightarrow> real" where
  "autoHeight widths cfg row r =
     (let fontSize = (if r = 0 then 20 else 16);
          maxLines = Max (set (1 # lineCountsFrom widths (padding cfg) fontSize row 0))
      in max 50 (real maxLines * fontSize * 1.4 + 2 * padding cfg))"

definition rowHeight_claimed :: "real list \<Rightarrow> TableConfig \<Rightarrow> TableCell list \<Rightarrow> nat \<Rightarrow> real" where
  "rowHeight_claimed widths cfg row r =
     (case map_of (customRowHeights cfg) r of
        Some h \<Rightarrow> h
      | None \<Rightarrow> autoHeight widths cfg row r)"

definition rowHeight_computed :: "real list \<Rightarrow> TableConfig \<Rightarrow> TableCell list \<Rightarrow> nat \<Rightarrow> real" where
  "rowHeight_computed widths cfg row r =
     (case map_of (customRowHeights cfg) r of
        Some h \<Rightarrow> if h = 0 then autoHeight widths cfg row r else h
      | None \<Rightarrow> autoHeight widths cfg row r)"

text \<open>
  A grid with a cell that spans two columns and texts that wrap, a configuration with the
  height overrides 0 and 70, and one with a width override and a height override of 0.
\<close>

definition gridWide :: TableData where
  "gridWide =
     [[\<lparr>id_cell = ''1'', value_cell = ''one two three four five six seven eight nine ten'',
        rowSpan = 1, colSpan = 2, hidden = False, ownerRow = None, ownerCol = None\<rparr>,
       \<lparr>id_cell = ''2'', value_cell = [], rowSpan = 1, colSpan = 1,
        hidden = True, ownerRow = Some 0, ownerCol = Some 0\<rparr>],
      [plainCell ''3'' [], plainCell ''4'' ''a long text that has to wrap'']]"

definition cfgHeights :: TableConfig where
  "cfgHeights = DEFAULT_CONFIG\<lparr>customRowHeights := [(0, 0), (1, 70)]\<rparr>"

definition cfgZero :: TableConfig where
  "cfgZero = DEFAULT_CONFIG\<lparr>customColumnWidths := [(0, 0)], customRowHeights := [(0, 0)]\<rparr>"

section \<open>Grid lines\<close>

text \<open>
  \<^verbatim>\<open>
  export const getRoughPath = (x1, y1, x2, y2, roughness = 1, bowing = 1) => {
    const len = Math.sqrt(Math.pow(x2 - x1, 2) + Math.pow(y2 - y1, 2));
    const midX = (x1 + x2) / 2;
    const midY = (y1 + y2) / 2;
    const bowOffset = len * 0.05 * bowing;
    const angle = Math.atan2(y2 - y1, x2 - x1);
    const perpAngle = angle + Math.PI / 2;
    const randomBow = (Math.random() - 0.5) * bowOffset;
    const controlX = midX + Math.cos(perpAngle) * randomBow;
    const controlY = midY + Math.sin(perpAngle) * randomBow;
    const r1 = (Math.random() - 0.5) * roughness * 2;
    const r2 = (Math.random() - 0.5) * roughness * 2;
    const r3 = (Math.random() - 0.5) * roughness * 2;
    const r4 = (Math.random() - 0.5) * roughness * 2;
    return `M ${x1 + r1} ${y1 + r2} Q ${controlX} ${controlY} ${x2 + r3} ${y2 + r4}`;
  };
  \<close>
  The path string \<^verbatim>\<open>M mx my Q cx cy ex ey\<close> is the record of its six numbers. The function
  draws five random values, \<open>rnd n\<close> to \<open>rnd (n + 4)\<close>, and returns the count \<open>n + 5\<close> with
  the path. The parameters \<^verbatim>\<open>roughness\<close> and \<^verbatim>\<open>bowing\<close> are \<open>rough\<close> and \<open>bow\<close>; every call
  in the source passes both.

  The arithmetic of this function is that of IEEE 754 doubles without the rounding: a
  \<open>number\<close> is a finite value, one of the two infinities or \<^verbatim>\<open>NaN\<close>. \<open>fin\<close> reads a real as
  a double: a value whose magnitude reaches \<open>overflowAt\<close>, the first magnitude that rounds
  to an infinity (\<open>2^1024 - 2^970\<close>), is that infinity. \<open>nadd\<close>, \<open>nsub\<close>, \<open>nmul\<close>, \<open>nhalf\<close>,
  \<open>npow2\<close>, \<open>nsqrt\<close>, \<open>natan2\<close>, \<open>ncos\<close> and \<open>nsin\<close> are \<^verbatim>\<open>+\<close>, \<^verbatim>\<open>-\<close>, \<^verbatim>\<open>*\<close>, \<^verbatim>\<open>/ 2\<close>,
  \<^verbatim>\<open>Math.pow(_, 2)\<close>, \<^verbatim>\<open>Math.sqrt\<close>, \<^verbatim>\<open>Math.atan2\<close>, \<^verbatim>\<open>Math.cos\<close> and \<^verbatim>\<open>Math.sin\<close>: a finite
  result that overflows is an infinity, infinity minus infinity and infinity times zero
  are \<^verbatim>\<open>NaN\<close>, and \<^verbatim>\<open>NaN\<close> propagates. The sign of a zero is not modelled. The arguments
  of the function and the random values are read with \<open>fin\<close>.
\<close>

datatype number = Finite real | PosInf | NegInf | NaN

definition overflowAt :: real where
  "overflowAt = 2 ^ 1024 - 2 ^ 970"

definition fin :: "real \<Rightarrow> number" where
  "fin x = (if overflowAt \<le> x then PosInf else if x \<le> - overflowAt then NegInf else Finite x)"

fun nneg :: "number \<Rightarrow> number" where
  "nneg (Finite x) = Finite (- x)"
| "nneg PosInf = NegInf"
| "nneg NegInf = PosInf"
| "nneg NaN = NaN"

fun nadd :: "number \<Rightarrow> number \<Rightarrow> number" where
  "nadd (Finite x) (Finite y) = fin (x + y)"
| "nadd NaN b = NaN"
| "nadd a NaN = NaN"
| "nadd PosInf NegInf = NaN"
| "nadd NegInf PosInf = NaN"
| "nadd PosInf b = PosInf"
| "nadd a PosInf = PosInf"
| "nadd NegInf b = NegInf"
| "nadd a NegInf = NegInf"

definition nsub :: "number \<Rightarrow> number \<Rightarrow> number" where
  "nsub a b = nadd a (nneg b)"

definition infTimes :: "bool \<Rightarrow> real \<Rightarrow> number" where
  "infTimes positive y =
     (if y = 0 then NaN else if (0 < y) = positive then PosInf else NegInf)"

fun nmul :: "number \<Rightarrow> number \<Rightarrow> number" where
  "nmul (Finite x) (Finite y) = fin (x * y)"
| "nmul NaN b = NaN"
| "nmul a NaN = NaN"
| "nmul PosInf (Finite y) = infTimes True y"
| "nmul NegInf (Finite y) = infTimes False y"
| "nmul (Finite x) PosInf = infTimes True x"
| "nmul (Finite x) NegInf = infTimes False x"
| "nmul PosInf PosInf = PosInf"
| "nmul NegInf NegInf = PosInf"
| "nmul PosInf NegInf = NegInf"
| "nmul NegInf PosInf = NegInf"

fun nhalf :: "number \<Rightarrow> number" where
  "nhalf (Finite x) = fin (x / 2)"
| "nhalf a = a"

fun npow2 :: "number \<Rightarrow> number" where
  "npow2 (Finite x) = fin (x ^ 2)"
| "npow2 PosInf = PosInf"
| "npow2 NegInf = PosInf"
| "npow2 NaN = NaN"

fun nsqrt :: "number \<Rightarrow> number" where
  "nsqrt (Finite x) = (if x < 0 then NaN else Finite (sqrt x))"
| "nsqrt PosInf = PosInf"
| "nsqrt NegInf = NaN"
| "nsqrt NaN = NaN"

definition atan2 :: "real \<Rightarrow> real \<Rightarrow> real" where
  "atan2 y x =
     (if 0 < x then arctan (y / x)
      else if x < 0 then (if 0 \<le> y then arctan (y / x) + pi else arctan (y / x) - pi)
      else if 0 < y then pi / 2
      else if y < 0 then - (pi / 2)
      else 0)"

fun natan2 :: "number \<Rightarrow> number \<Rightarrow> number" where
  "natan2 (Finite y) (Finite x) = Finite (atan2 y x)"
| "natan2 NaN b = NaN"
| "natan2 a NaN = NaN"
| "natan2 (Finite y) PosInf = Finite 0"
| "natan2 (Finite y) NegInf = Finite (if 0 \<le> y then pi else - pi)"
| "natan2 PosInf (Finite x) = Finite (pi / 2)"
| "natan2 NegInf (Finite x) = Finite (- (pi / 2))"
| "natan2 PosInf PosInf = Finite (pi / 4)"
| "natan2 PosInf NegInf = Finite (3 * pi / 4)"
| "natan2 NegInf PosInf = Finite (- (pi / 4))"
| "natan2 NegInf NegInf = Finite (- (3 * pi / 4))"

fun ncos :: "number \<Rightarrow> number" where
  "ncos (Finite x) = Finite (cos x)"
| "ncos a = NaN"

fun nsin :: "number \<Rightarrow> number" where
  "nsin (Finite x) = Finite (sin x)"
| "nsin a = NaN"

record PathD =
  moveX :: number
  moveY :: number
  ctrlX :: number
  ctrlY :: number
  endX :: number
  endY :: number

definition getRoughPath ::
  "real \<Rightarrow> real \<Rightarrow> real \<Rightarrow> real \<Rightarrow> real \<Rightarrow> real \<Rightarrow> (nat \<Rightarrow> real) \<Rightarrow> nat \<Rightarrow> PathD \<times> nat" where
  "getRoughPath x1 y1 x2 y2 rough bow rnd n =
     (let len = nsqrt (nadd (npow2 (nsub (fin x2) (fin x1))) (npow2 (nsub (fin y2) (fin y1))));
          midX = nhalf (nadd (fin x1) (fin x2));
          midY = nhalf (nadd (fin y1) (fin y2));
          bowOffset = nmul (nmul len (Finite 0.05)) (fin bow);
          angle = natan2 (nsub (fin y2) (fin y1)) (nsub (fin x2) (fin x1));
          perpAngle = nadd angle (Finite (pi / 2));
          randomBow = nmul (nsub (fin (rnd n)) (Finite 0.5)) bowOffset;
          controlX = nadd midX (nmul (ncos perpAngle) randomBow);
          controlY = nadd midY (nmul (nsin perpAngle) randomBow);
          r1 = nmul (nmul (nsub (fin (rnd (n + 1))) (Finite 0.5)) (fin rough)) (Finite 2);
          r2 = nmul (nmul (nsub (fin (rnd (n + 2))) (Finite 0.5)) (fin rough)) (Finite 2);
          r3 = nmul (nmul (nsub (fin (rnd (n + 3))) (Finite 0.5)) (fin rough)) (Finite 2);
          r4 = nmul (nmul (nsub (fin (rnd (n + 4))) (Finite 0.5)) (fin rough)) (Finite 2)
      in (\<lparr>moveX = nadd (fin x1) r1, moveY = nadd (fin y1) r2,
           ctrlX = controlX, ctrlY = controlY,
           endX = nadd (fin x2) r3, endY = nadd (fin y2) r4\<rparr>, n + 5))"

text \<open>
  The path of claim C8, in the words of the specification: the straight curve from the
  first end point to the second, with the midpoint as control point. \<open>finiteDouble\<close> says
  that a real is read as a finite double.
\<close>

definition finiteDouble :: "real \<Rightarrow> bool" where
  "finiteDouble x \<longleftrightarrow> \<bar>x\<bar> < overflowAt"

definition straightPath :: "real \<Rightarrow> real \<Rightarrow> real \<Rightarrow> real \<Rightarrow> PathD" where
  "straightPath x1 y1 x2 y2 =
     \<lparr>moveX = Finite x1, moveY = Finite y1,
      ctrlX = Finite ((x1 + x2) / 2), ctrlY = Finite ((y1 + y2) / 2),
      endX = Finite x2, endY = Finite y2\<rparr>"

text \<open>
  \<^verbatim>\<open>
  const getCellAt = (r, c) => {
      if (r < 0 || r >= data.length || c < 0 || c >= data[0].length) return null;
      const cell = data[r][c];
      if (!cell.hidden) return { ...cell, r, c };
      const ownerR = cell.ownerRow ?? r;
      const ownerC = cell.ownerCol ?? c;
      return { ...data[ownerR][ownerC], r: ownerR, c: ownerC };
  };
  \<close>
  The callers pass \<open>r - 1\<close> with \<open>0 < r\<close> and \<open>c - 1\<close> with \<open>0 < c\<close>, so the indices are
  naturals and the tests \<^verbatim>\<open>r < 0\<close> and \<^verbatim>\<open>c < 0\<close> never hold. The result \<^verbatim>\<open>null\<close> is \<open>None\<close>.
  The result object is the cell spread with the coordinates; spreading \<^verbatim>\<open>undefined\<close> (an
  owner column outside the owner row) gives an object with the coordinates only, which is
  \<open>eff_cell = None\<close>. In a row shorter than the first, \<^verbatim>\<open>cell.hidden\<close> throws, and so does
  \<^verbatim>\<open>data[ownerR][ownerC]\<close> for an owner row outside the grid.
\<close>

record EffCell =
  eff_cell :: "TableCell option"
  eff_r :: nat
  eff_c :: nat

definition getCellAt :: "TableData \<Rightarrow> nat \<Rightarrow> nat \<Rightarrow> failure + EffCell option" where
  "getCellAt d r c =
     (if r \<ge> length d then Inr None
      else if c \<ge> length (d ! 0) then Inr None
      else if c \<ge> length (d ! r) then Inl TypeError
      else
        (let cell = d ! r ! c
         in if \<not> hidden cell then Inr (Some \<lparr>eff_cell = Some cell, eff_r = r, eff_c = c\<rparr>)
            else
              (let ownerR = (case ownerRow cell of Some x \<Rightarrow> x | None \<Rightarrow> r);
                   ownerC = (case ownerCol cell of Some x \<Rightarrow> x | None \<Rightarrow> c)
               in if ownerR \<ge> length d then Inl TypeError
                  else if ownerC \<ge> length (d ! ownerR)
                  then Inr (Some \<lparr>eff_cell = None, eff_r = ownerR, eff_c = ownerC\<rparr>)
                  else Inr (Some \<lparr>eff_cell = Some (d ! ownerR ! ownerC),
                                   eff_r = ownerR, eff_c = ownerC\<rparr>))))"

text \<open>
  \<^verbatim>\<open>
  const paths = useMemo(() => {
    const lines = [];
    const rowCount = data.length;
    const colCount = data[0]?.length || 0;
    for (let r = 0; r <= rowCount; r++) {
        for (let c = 0; c < colCount; c++) {
            let shouldDraw = false;
            if (r === 0 || r === rowCount) { shouldDraw = true; }
            else {
                const cellAbove = getCellAt(r - 1, c);
                if (cellAbove && (cellAbove.r + cellAbove.rowSpan) > r) { shouldDraw = false; }
                else { shouldDraw = true; }
            }
            if (shouldDraw) {
                const x1 = xPositions[c];
                const x2 = xPositions[c + 1];
                const y = yPositions[r];
                const p1 = getRoughPath(x1, y, x2, y, config.roughness, config.bowing);
                lines.push(<path key={`h-${r}-${c}`} d={p1} stroke={config.stroke}
                                 strokeWidth={config.strokeWidth} fill="none" />);
                if (config.roughness > 0.5) {
                    const p2 = getRoughPath(x1, y, x2, y, config.roughness, config.bowing);
                    lines.push(<path key={`h-${r}-${c}-d`} d={p2} stroke={config.stroke}
                                     strokeWidth={config.strokeWidth * 0.5} fill="none"
                                     opacity="0.6" />);
                }
            }
        }
    }
    for (let c = 0; c <= colCount; c++) {
        for (let r = 0; r < rowCount; r++) {
            let shouldDraw = false;
            if (c === 0 || c === colCount) { shouldDraw = true; }
            else {
                const cellLeft = getCellAt(r, c - 1);
                if (cellLeft && (cellLeft.c + cellLeft.colSpan) > c) { shouldDraw = false; }
                else { shouldDraw = true; }
            }
            if (shouldDraw) {
                const x = xPositions[c];
                const y1 = yPositions[r];
                const y2 = yPositions[r + 1];
                const p1 = getRoughPath(x, y1, x, y2, config.roughness, config.bowing);
                lines.push(<path key={`v-${c}-${r}`} ... />);
                if (config.roughness > 0.5) {
                    const p2 = getRoughPath(x, y1, x, y2, config.roughness, config.bowing);
                    lines.push(<path key={`v-${c}-${r}-d`} ... opacity="0.6" />);
                }
            }
        }
    }
    return lines;
  }, [data, xPositions, yPositions, config, totalWidth, totalHeight]);
  \<close>
  The keys \<^verbatim>\<open>h-r-c\<close>, \<^verbatim>\<open>h-r-c-d\<close>, \<^verbatim>\<open>v-c-r\<close> and \<^verbatim>\<open>v-c-r-d\<close> are \<open>HKey r c\<close>, \<open>HKeyD r c\<close>,
  \<open>VKey c r\<close> and \<open>VKeyD c r\<close>. A path element keeps its key, its path, its stroke colour,
  its stroke width and its opacity. \<open>shouldDrawH\<close> and \<open>shouldDrawV\<close> compute the variable
  \<^verbatim>\<open>shouldDraw\<close> of the two loops: a missing \<^verbatim>\<open>rowSpan\<close> gives \<^verbatim>\<open>NaN > r\<close>, which is false.
  \<open>pushStrokes\<close> is the body of \<^verbatim>\<open>if (shouldDraw)\<close> after the coordinates are read; the two
  loops share it. \<open>hLoop\<close> and \<open>vLoop\<close> are the two pairs of loops over the candidate
  segments still to visit, with the lines pushed and the count of random values drawn so
  far. A read of \<^verbatim>\<open>xPositions\<close> or \<^verbatim>\<open>yPositions\<close> past the end is \<open>Unmodelled\<close>.
\<close>

datatype key = HKey nat nat | HKeyD nat nat | VKey nat nat | VKeyD nat nat

record PathElem =
  el_key :: key
  el_d :: PathD
  el_stroke :: string
  el_strokeWidth :: real
  el_opacity :: "real option"

definition shouldDrawH :: "TableData \<Rightarrow> nat \<Rightarrow> nat \<Rightarrow> failure + bool" where
  "shouldDrawH d r c =
     (if r = 0 \<or> r = length d then Inr True
      else
        (case getCellAt d (r - 1) c of
           Inl e \<Rightarrow> Inl e
         | Inr None \<Rightarrow> Inr True
         | Inr (Some cellAbove) \<Rightarrow>
             (case eff_cell cellAbove of
                None \<Rightarrow> Inr True
              | Some cell \<Rightarrow> Inr (\<not> (eff_r cellAbove + rowSpan cell > r)))))"

definition shouldDrawV :: "TableData \<Rightarrow> nat \<Rightarrow> nat \<Rightarrow> failure + bool" where
  "shouldDrawV d c r =
     (if c = 0 \<or> c = ncols d then Inr True
      else
        (case getCellAt d r (c - 1) of
           Inl e \<Rightarrow> Inl e
         | Inr None \<Rightarrow> Inr True
         | Inr (Some cellLeft) \<Rightarrow>
             (case eff_cell cellLeft of
                None \<Rightarrow> Inr True
              | Some cell \<Rightarrow> Inr (\<not> (eff_c cellLeft + colSpan cell > c)))))"

definition pushStrokes ::
  "TableConfig \<Rightarrow> (nat \<Rightarrow> real) \<Rightarrow> key \<Rightarrow> key \<Rightarrow> real \<Rightarrow> real \<Rightarrow> real \<Rightarrow> real
     \<Rightarrow> PathElem list \<times> nat \<Rightarrow> PathElem list \<times> nat" where
  "pushStrokes cfg rnd k kd x1 y1 x2 y2 st =
     (let (p1, n1) = getRoughPath x1 y1 x2 y2 (roughness cfg) (bowing cfg) rnd (snd st);
          lines1 = fst st @ [\<lparr>el_key = k, el_d = p1, el_stroke = stroke cfg,
                              el_strokeWidth = strokeWidth cfg, el_opacity = None\<rparr>]
      in if roughness cfg > 0.5 then
           (let (p2, n2) = getRoughPath x1 y1 x2 y2 (roughness cfg) (bowing cfg) rnd n1
            in (lines1 @ [\<lparr>el_key = kd, el_d = p2, el_stroke = stroke cfg,
                            el_strokeWidth = strokeWidth cfg * 0.5, el_opacity = Some 0.6\<rparr>],
                n2))
         else (lines1, n1))"

fun hLoop ::
  "TableData \<Rightarrow> real list \<Rightarrow> real list \<Rightarrow> TableConfig \<Rightarrow> (nat \<Rightarrow> real)
     \<Rightarrow> (nat \<times> nat) list \<Rightarrow> PathElem list \<times> nat \<Rightarrow> failure + PathElem list \<times> nat" where
  "hLoop d xs ys cfg rnd [] st = Inr st"
| "hLoop d xs ys cfg rnd ((r, c) # cands) st =
     (case shouldDrawH d r c of
        Inl e \<Rightarrow> Inl e
      | Inr shouldDraw \<Rightarrow>
          if shouldDraw then
            (if c + 1 < length xs \<and> r < length ys
             then hLoop d xs ys cfg rnd cands
                    (pushStrokes cfg rnd (HKey r c) (HKeyD r c)
                       (xs ! c) (ys ! r) (xs ! (c + 1)) (ys ! r) st)
             else Inl Unmodelled)
          else hLoop d xs ys cfg rnd cands st)"

fun vLoop ::
  "TableData \<Rightarrow> real list \<Rightarrow> real list \<Rightarrow> TableConfig \<Rightarrow> (nat \<Rightarrow> real)
     \<Rightarrow> (nat \<times> nat) list \<Rightarrow> PathElem list \<times> nat \<Rightarrow> failure + PathElem list \<times> nat" where
  "vLoop d xs ys cfg rnd [] st = Inr st"
| "vLoop d xs ys cfg rnd ((c, r) # cands) st =
     (case shouldDrawV d c r of
        Inl e \<Rightarrow> Inl e
      | Inr shouldDraw \<Rightarrow>
          if shouldDraw then
            (if c < length xs \<and> r + 1 < length ys
             then vLoop d xs ys cfg rnd cands
                    (pushStrokes cfg rnd (VKey c r) (VKeyD c r)
                       (xs ! c) (ys ! r) (xs ! c) (ys ! (r + 1)) st)
             else Inl Unmodelled)
          else vLoop d xs ys cfg rnd cands st)"

definition paths ::
  "TableData \<Rightarrow> real list \<Rightarrow> real list \<Rightarrow> TableConfig \<Rightarrow> (nat \<Rightarrow> real) \<Rightarrow> nat
     \<Rightarrow> failure + PathElem list \<times> nat" where
  "paths d xs ys cfg rnd n =
     (let rowCount = length d;
          colCount = ncols d
      in case hLoop d xs ys cfg rnd (rect 0 (rowCount + 1) 0 colCount) ([], n) of
           Inl e \<Rightarrow> Inl e
         | Inr st \<Rightarrow> vLoop d xs ys cfg rnd (rect 0 (colCount + 1) 0 rowCount) st)"

text \<open>
  One render pass up to the grid lines: the memoised values of the component in the order
  of their computation. It returns the count of random values drawn, for the text
  elements that follow.
\<close>

record Rendered =
  r_colWidths :: "real list"
  r_rowHeights :: "real list"
  r_xPositions :: "real list"
  r_yPositions :: "real list"
  r_totalWidth :: real
  r_totalHeight :: real
  r_paths :: "PathElem list"

definition render ::
  "TableData \<Rightarrow> TableConfig \<Rightarrow> (nat \<Rightarrow> real) \<Rightarrow> nat \<Rightarrow> failure + Rendered \<times> nat" where
  "render d cfg rnd n =
     (case colWidths d cfg of
        Inl e \<Rightarrow> Inl e
      | Inr cw \<Rightarrow>
          (case rowHeights d cw cfg of
             Inl e \<Rightarrow> Inl e
           | Inr rh \<Rightarrow>
               (let xs = xPositions cw;
                    ys = yPositions rh
                in case paths d xs ys cfg rnd n of
                     Inl e \<Rightarrow> Inl e
                   | Inr (lines, n') \<Rightarrow>
                       Inr (\<lparr>r_colWidths = cw, r_rowHeights = rh,
                             r_xPositions = xs, r_yPositions = ys,
                             r_totalWidth = last xs, r_totalHeight = last ys,
                             r_paths = lines\<rparr>, n'))))"

text \<open>
  The decisions of a render pass, apart from the random values. A \<open>Segment\<close> is a grid-line
  segment that is drawn: its two keys and the end points passed to \<open>getRoughPath\<close>.
  \<open>hPlan\<close> and \<open>vPlan\<close> list the segments the two loops draw and fail where the loops fail;
  \<open>strokeAll\<close> strokes the segments of a list in order. \<open>skeleton\<close> is a path element
  without its path, and \<open>planned\<close> lists the keys of the elements stroked for a plan.
\<close>

record Segment =
  seg_key :: key
  seg_keyD :: key
  seg_x1 :: real
  seg_y1 :: real
  seg_x2 :: real
  seg_y2 :: real

fun hPlan :: "TableData \<Rightarrow> real list \<Rightarrow> real list \<Rightarrow> (nat \<times> nat) list \<Rightarrow> failure + Segment list" where
  "hPlan d xs ys [] = Inr []"
| "hPlan d xs ys ((r, c) # cands) =
     (case shouldDrawH d r c of
        Inl e \<Rightarrow> Inl e
      | Inr shouldDraw \<Rightarrow>
          if shouldDraw then
            (if c + 1 < length xs \<and> r < length ys
             then (case hPlan d xs ys cands of
                     Inl e \<Rightarrow> Inl e
                   | Inr segs \<Rightarrow>
                       Inr (\<lparr>seg_key = HKey r c, seg_keyD = HKeyD r c,
                             seg_x1 = xs ! c, seg_y1 = ys ! r,
                             seg_x2 = xs ! (c + 1), seg_y2 = ys ! r\<rparr> # segs))
             else Inl Unmodelled)
          else hPlan d xs ys cands)"

fun vPlan :: "TableData \<Rightarrow> real list \<Rightarrow> real list \<Rightarrow> (nat \<times> nat) list \<Rightarrow> failure + Segment list" where
  "vPlan d xs ys [] = Inr []"
| "vPlan d xs ys ((c, r) # cands) =
     (case shouldDrawV d c r of
        Inl e \<Rightarrow> Inl e
      | Inr shouldDraw \<Rightarrow>
          if shouldDraw then
            (if c < length xs \<and> r + 1 < length ys
             then (case vPlan d xs ys cands of
                     Inl e \<Rightarrow> Inl e
                   | Inr segs \<Rightarrow>
                       Inr (\<lparr>seg_key = VKey c r, seg_keyD = VKeyD c r,
                             seg_x1 = xs ! c, seg_y1 = ys ! r,
                             seg_x2 = xs ! c, seg_y2 = ys ! (r + 1)\<rparr> # segs))
             else Inl Unmodelled)
          else vPlan d xs ys cands)"

definition segmentPlan :: "TableData \<Rightarrow> real list \<Rightarrow> real list \<Rightarrow> failure + Segment list" where
  "segmentPlan d xs ys =
     (case hPlan d xs ys (rect 0 (length d + 1) 0 (ncols d)) of
        Inl e \<Rightarrow> Inl e
      | Inr hs \<Rightarrow>
          (case vPlan d xs ys (rect 0 (ncols d + 1) 0 (length d)) of
             Inl e \<Rightarrow> Inl e
           | Inr vs \<Rightarrow> Inr (hs @ vs)))"

fun strokeAll ::
  "TableConfig \<Rightarrow> (nat \<Rightarrow> real) \<Rightarrow> Segment list \<Rightarrow> PathElem list \<times> nat \<Rightarrow> PathElem list \<times> nat" where
  "strokeAll cfg rnd [] st = st"
| "strokeAll cfg rnd (s # segs) st =
     strokeAll cfg rnd segs
       (pushStrokes cfg rnd (seg_key s) (seg_keyD s)
          (seg_x1 s) (seg_y1 s) (seg_x2 s) (seg_y2 s) st)"

definition planned :: "TableConfig \<Rightarrow> Segment list \<Rightarrow> key list" where
  "planned cfg segs =
     concat (map (\<lambda>s. if roughness cfg > 0.5 then [seg_key s, seg_keyD s] else [seg_key s]) segs)"

definition skeleton :: "PathElem \<Rightarrow> key \<times> string \<times> real \<times> real option" where
  "skeleton e = (el_key e, el_stroke e, el_strokeWidth e, el_opacity e)"

definition geometry :: "Rendered \<Rightarrow>
   real list \<times> real list \<times> real list \<times> real list \<times> real \<times> real
     \<times> (key \<times> string \<times> real \<times> real option) list" where
  "geometry R =
     (r_colWidths R, r_rowHeights R, r_xPositions R, r_yPositions R,
      r_totalWidth R, r_totalHeight R, map skeleton (r_paths R))"

text \<open>The path elements stroked for one segment, without their paths.\<close>

definition segSkeleton :: "TableConfig \<Rightarrow> Segment \<Rightarrow> (key \<times> string \<times> real \<times> real option) list" where
  "segSkeleton cfg s =
     (seg_key s, stroke cfg, strokeWidth cfg, None)
     # (if roughness cfg > 0.5 then [(seg_keyD s, stroke cfg, strokeWidth cfg * 0.5, Some 0.6)]
        else [])"

section \<open>Invariants of the grid\<close>

text \<open>
  The invariants of the data model for merged cells. \<open>covers d R C r c\<close> says that the
  cell at \<open>(R, C)\<close> is a visible cell of the grid whose span rectangle contains the position
  \<open>(r, c)\<close>. In a grid that satisfies \<open>grid_inv\<close>, every row has as many cells as the first;
  a hidden cell has both spans 1, the empty text and owner coordinates of a cell that
  covers it; a visible cell has spans of at least 1 and a span rectangle within the grid;
  and no position is covered by two cells.
\<close>

definition covers :: "TableData \<Rightarrow> nat \<Rightarrow> nat \<Rightarrow> nat \<Rightarrow> nat \<Rightarrow> bool" where
  "covers d R C r c \<longleftrightarrow>
     in_grid d R C \<and> \<not> hidden (d ! R ! C)
     \<and> R \<le> r \<and> r < R + rowSpan (d ! R ! C)
     \<and> C \<le> c \<and> c < C + colSpan (d ! R ! C)"

definition positions :: "TableData \<Rightarrow> (nat \<times> nat) list" where
  "positions d = rect 0 (length d) 0 (ncols d)"

definition cell_ok :: "TableData \<Rightarrow> nat \<Rightarrow> nat \<Rightarrow> bool" where
  "cell_ok d r c =
     (let cell = d ! r ! c
      in if hidden cell then
           rowSpan cell = 1 \<and> colSpan cell = 1 \<and> value_cell cell = []
           \<and> (case ownerRow cell of
                 None \<Rightarrow> False
               | Some oR \<Rightarrow>
                   (case ownerCol cell of
                      None \<Rightarrow> False
                    | Some oC \<Rightarrow> covers d oR oC r c))
         else 1 \<le> rowSpan cell \<and> 1 \<le> colSpan cell
              \<and> r + rowSpan cell \<le> length d \<and> c + colSpan cell \<le> ncols d)"

definition grid_inv :: "TableData \<Rightarrow> bool" where
  "grid_inv d \<longleftrightarrow>
     rectangular d
     \<and> (\<forall>(r, c) \<in> set (positions d).
          cell_ok d r c
          \<and> (\<forall>(R, C) \<in> set (positions d). \<forall>(R', C') \<in> set (positions d).
                covers d R C r c \<and> covers d R' C' r c \<longrightarrow> R = R' \<and> C = C'))"

text \<open>
  The grid lines in the words of the specification. \<open>lineEnds\<close> gives the end points of
  the segment that a key names: the horizontal segment at grid line \<open>r\<close>, column \<open>c\<close> runs
  from \<open>(xs ! c, ys ! r)\<close> to \<open>(xs ! (c + 1), ys ! r)\<close>, the vertical segment at grid line
  \<open>c\<close>, row \<open>r\<close> from \<open>(xs ! c, ys ! r)\<close> to \<open>(xs ! c, ys ! (r + 1))\<close>, and the second stroke
  of a segment has the end points of the first. \<open>strokeAt\<close> is the path element of a key
  whose path takes its five random values from position \<open>m\<close> on: a first stroke has the
  stroke width of the configuration and no opacity, a second stroke half the width and
  the opacity 0.6.

  \<open>nearSegment\<close> says that a path follows a segment up to the jitter: its six numbers are
  finite, its start and its end are within the roughness of the end points of the segment
  in each coordinate, and its control point is no farther from the midpoint than 0.025
  times the bowing times the length of the segment. \<open>coordBound\<close> is a bound on the
  magnitude of offsets, roughness and bowing below which no step of \<open>getRoughPath\<close>
  overflows.
\<close>

definition lineEnds :: "real list \<Rightarrow> real list \<Rightarrow> key \<Rightarrow> real \<times> real \<times> real \<times> real" where
  "lineEnds xs ys k =
     (case k of
        HKey r c \<Rightarrow> (xs ! c, ys ! r, xs ! (c + 1), ys ! r)
      | HKeyD r c \<Rightarrow> (xs ! c, ys ! r, xs ! (c + 1), ys ! r)
      | VKey c r \<Rightarrow> (xs ! c, ys ! r, xs ! c, ys ! (r + 1))
      | VKeyD c r \<Rightarrow> (xs ! c, ys ! r, xs ! c, ys ! (r + 1)))"

definition secondStroke :: "key \<Rightarrow> bool" where
  "secondStroke k =
     (case k of HKey r c \<Rightarrow> False | HKeyD r c \<Rightarrow> True | VKey c r \<Rightarrow> False | VKeyD c r \<Rightarrow> True)"

definition strokeAt ::
  "real list \<Rightarrow> real list \<Rightarrow> TableConfig \<Rightarrow> (nat \<Rightarrow> real) \<Rightarrow> nat \<Rightarrow> key \<Rightarrow> PathElem" where
  "strokeAt xs ys cfg rnd m k =
     (case lineEnds xs ys k of
        (x1, y1, x2, y2) \<Rightarrow>
          \<lparr>el_key = k,
           el_d = fst (getRoughPath x1 y1 x2 y2 (roughness cfg) (bowing cfg) rnd m),
           el_stroke = stroke cfg,
           el_strokeWidth = (if secondStroke k then strokeWidth cfg * 0.5 else strokeWidth cfg),
           el_opacity = (if secondStroke k then Some 0.6 else None)\<rparr>)"

fun isFinite :: "number \<Rightarrow> bool" where
  "isFinite (Finite x) = True"
| "isFinite PosInf = False"
| "isFinite NegInf = False"
| "isFinite NaN = False"

fun val :: "number \<Rightarrow> real" where
  "val (Finite x) = x"
| "val PosInf = 0"
| "val NegInf = 0"
| "val NaN = 0"

definition nearSegment :: "real \<Rightarrow> real \<Rightarrow> real \<times> real \<times> real \<times> real \<Rightarrow> PathD \<Rightarrow> bool" where
  "nearSegment rough bow seg p =
     (case seg of
        (x1, y1, x2, y2) \<Rightarrow>
          isFinite (moveX p) \<and> isFinite (moveY p) \<and> isFinite (ctrlX p) \<and> isFinite (ctrlY p)
          \<and> isFinite (endX p) \<and> isFinite (endY p)
          \<and> \<bar>val (moveX p) - x1\<bar> \<le> \<bar>rough\<bar> \<and> \<bar>val (moveY p) - y1\<bar> \<le> \<bar>rough\<bar>
          \<and> \<bar>val (endX p) - x2\<bar> \<le> \<bar>rough\<bar> \<and> \<bar>val (endY p) - y2\<bar> \<le> \<bar>rough\<bar>
          \<and> (val (ctrlX p) - (x1 + x2) / 2) ^ 2 + (val (ctrlY p) - (y1 + y2) / 2) ^ 2
                \<le> (0.025 * bow) ^ 2 * ((x2 - x1) ^ 2 + (y2 - y1) ^ 2))"

definition coordBound :: real where
  "coordBound = 10 ^ 150"

section \<open>Facts about splitting\<close>

lemma split_from_prefix:
  "split_from sep (pre @ cur) s = (pre @ hd (split_from sep cur s)) # tl (split_from sep cur s)"
  by (induction s arbitrary: cur) auto

lemma split_from_not_Nil: "split_from sep cur s \<noteq> []"
  by (induction s arbitrary: cur) auto

lemma split_not_Nil: "split sep s \<noteq> []"
  by (simp add: split_def split_from_not_Nil)

lemma split_Nil: "split sep [] = [[]]"
  by (simp add: split_def)

lemma split_Cons:
  "split sep (c # cs) =
     (if c = sep then [] # split sep cs
      else (c # hd (split sep cs)) # tl (split sep cs))"
  using split_from_prefix [of sep "[c]" "[]" cs] by (simp add: split_def)

lemma split_no_sep: "sep \<notin> set s \<Longrightarrow> split sep s = [s]"
  by (induction s) (auto simp: split_Nil split_Cons)

lemma split_pieces_no_sep: "w \<in> set (split sep s) \<Longrightarrow> sep \<notin> set w"
proof (induction s arbitrary: w)
  case Nil
  then show ?case by (simp add: split_Nil)
next
  case (Cons c cs)
  have ne: "split sep cs \<noteq> []" by (rule split_not_Nil)
  show ?case
  proof (cases "c = sep")
    case True
    with Cons show ?thesis by (auto simp: split_Cons)
  next
    case False
    from Cons.prems False
    have "w = c # hd (split sep cs) \<or> w \<in> set (tl (split sep cs))"
      by (simp add: split_Cons)
    then show ?thesis
    proof
      assume "w = c # hd (split sep cs)"
      moreover have "sep \<notin> set (hd (split sep cs))"
        using Cons.IH ne by simp
      ultimately show ?thesis using False by auto
    next
      assume "w \<in> set (tl (split sep cs))"
      then have "w \<in> set (split sep cs)" using ne by (meson list.set_sel(2))
      then show ?thesis by (rule Cons.IH)
    qed
  qed
qed

lemma split_append_sep: "split sep (a @ sep # b) = split sep a @ split sep b"
proof (induction a)
  case Nil
  show ?case by (simp add: split_Nil split_Cons)
next
  case (Cons c cs)
  have ne: "split sep cs \<noteq> []" by (rule split_not_Nil)
  show ?case using Cons ne by (simp add: split_Cons)
qed

section \<open>Text wrapping keeps the words\<close>

lemma wrapWords_pieces:
  "\<forall>w \<in> set ws. CHR '' '' \<notin> set w \<Longrightarrow>
   concat (map (split CHR '' '') (wrapWords cw mw cur ws)) = split CHR '' '' cur @ ws"
proof (induction ws arbitrary: cur)
  case Nil
  show ?case by simp
next
  case (Cons w ws)
  then have w: "split CHR '' '' w = [w]" by (simp add: split_no_sep)
  from Cons show ?case by (simp add: split_append_sep w)
qed

lemma wrapParagraph_pieces:
  "paragraph \<noteq> [] \<Longrightarrow>
   concat (map (split CHR '' '') (wrapParagraph cw mw paragraph)) = split CHR '' '' paragraph"
proof -
  assume ne: "paragraph \<noteq> []"
  obtain w0 ws where sp: "split CHR '' '' paragraph = w0 # ws"
    by (cases "split CHR '' '' paragraph") (auto simp: split_not_Nil)
  have nosp: "\<forall>w \<in> set (w0 # ws). CHR '' '' \<notin> set w"
    by (metis sp split_pieces_no_sep)
  then have "split CHR '' '' w0 = [w0]" by (simp add: split_no_sep)
  moreover have "concat (map (split CHR '' '') (wrapWords cw mw w0 ws)) = split CHR '' '' w0 @ ws"
    using nosp by (intro wrapWords_pieces) simp
  ultimately show ?thesis using ne sp by (simp add: wrapParagraph_def)
qed

lemma words_of_concat:
  "concat (map words_of ls) = filter (\<lambda>w. w \<noteq> []) (concat (map (split CHR '' '') ls))"
  by (induction ls) (simp_all add: words_of_def)

lemma wrapParagraph_words:
  "concat (map words_of (wrapParagraph cw mw paragraph)) = words_of paragraph"
proof (cases "paragraph = []")
  case True
  then show ?thesis
    by (simp add: wrapParagraph_def words_of_def split_Cons split_Nil)
next
  case False
  then show ?thesis
    by (simp add: words_of_concat wrapParagraph_pieces) (simp add: words_of_def)
qed

lemma wrapText_words:
  "concat (map words_of (wrapText text mw fs)) = concat (map words_of (split CHR ''\<newline>'' text))"
proof (cases "text = []")
  case True
  then show ?thesis by (simp add: wrapText_def split_Nil words_of_def)
next
  case False
  have "concat (map words_of (concat (map (wrapParagraph cw mw) ps))) = concat (map words_of ps)" for ps cw
    by (induction ps) (simp_all add: wrapParagraph_words)
  with False show ?thesis by (simp add: wrapText_def)
qed

lemma words_of_no_space: "CHR '' '' \<notin> set w \<Longrightarrow> words_of w = (if w = [] then [] else [w])"
  by (simp add: words_of_def split_no_sep)

lemma words_of_append_space:
  "words_of (a @ CHR '' '' # b) = words_of a @ words_of b"
  by (simp add: words_of_def split_append_sep)

lemma wrapWords_good:
  assumes "0 \<le> fs" "\<forall>w \<in> set ws. CHR '' '' \<notin> set w" "good_line mw fs cur"
  shows "\<forall>l \<in> set (wrapWords (fs * 0.55) mw cur ws). good_line mw fs l"
  using assms(2,3)
proof (induction ws arbitrary: cur)
  case Nil
  then show ?case by simp
next
  case (Cons w ws)
  have wns: "CHR '' '' \<notin> set w" using Cons.prems(1) by simp
  have rest: "\<forall>w \<in> set ws. CHR '' '' \<notin> set w" using Cons.prems(1) by simp
  show ?case
  proof (cases "real (length cur + 1 + length w) * (fs * 0.55) < mw")
    case True
    have mono: "real (length v + 1) * (fs * 0.55) \<le> real (length cur + 1 + length w) * (fs * 0.55)"
      if "length v \<le> length cur + length w" for v :: string
      using that assms(1) by (intro mult_right_mono) auto
    have "good_line mw fs (cur @ CHR '' '' # w)"
      unfolding good_line_def
    proof (intro ballI impI)
      fix v assume v: "v \<in> set (words_of (cur @ CHR '' '' # w))" and ov: "overflowing mw fs v"
      from v have "v \<in> set (words_of cur) \<or> v = w"
        by (auto simp: words_of_append_space words_of_no_space [OF wns] split: if_splits)
      then have len: "length v \<le> length cur + length w"
      proof
        assume vc: "v \<in> set (words_of cur)"
        with Cons.prems(2) ov have "cur = v" by (simp add: good_line_def)
        then show ?thesis by simp
      qed simp
      have "mw \<le> real (length v + 1) * (fs * 0.55)"
        using ov by (simp only: overflowing_def)
      also have "\<dots> \<le> real (length cur + 1 + length w) * (fs * 0.55)"
        using len by (rule mono)
      also have "\<dots> < mw" by (rule True)
      finally have False by simp
      then show "cur @ CHR '' '' # w = v" ..
    qed
    from Cons.IH [OF rest this] True show ?thesis by simp
  next
    case False
    have "good_line mw fs w"
      by (simp add: good_line_def words_of_no_space [OF wns])
    from Cons.IH [OF rest this] False Cons.prems(2) show ?thesis by simp
  qed
qed

lemma wrapParagraph_good:
  assumes "0 \<le> fs"
  shows "\<forall>l \<in> set (wrapParagraph (fs * 0.55) mw paragraph). good_line mw fs l"
proof (cases "paragraph = []")
  case True
  then show ?thesis
    by (simp add: wrapParagraph_def good_line_def words_of_def split_Cons split_Nil)
next
  case False
  obtain w0 ws where sp: "split CHR '' '' paragraph = w0 # ws"
    by (cases "split CHR '' '' paragraph") (auto simp: split_not_Nil)
  have nosp: "\<forall>w \<in> set (w0 # ws). CHR '' '' \<notin> set w"
    by (metis sp split_pieces_no_sep)
  then have g: "good_line mw fs w0" by (simp add: good_line_def words_of_no_space)
  from nosp have "\<forall>w \<in> set ws. CHR '' '' \<notin> set w" by simp
  from wrapWords_good [OF assms this g] False sp show ?thesis
    by (simp add: wrapParagraph_def)
qed

lemma wrapText_good:
  assumes "0 \<le> fs" "l \<in> set (wrapText text mw fs)"
  shows "good_line mw fs l"
  using assms wrapParagraph_good [OF assms(1)]
  by (auto simp: wrapText_def split: if_splits)

text \<open>
  Claim C2. For every text, maximum width and positive font size, the words of the output
  lines of \<open>wrapText\<close>, taken line by line, are exactly the words of the paragraphs of the
  text, in the same order and with the same multiplicity: no word is lost, repeated,
  reordered or split between two lines. A word that fails the width test even on an empty
  line is the whole of the line that holds it. The maximum width may be any number.
\<close>

theorem wrapText_keeps_words:
  assumes "0 < fontSize"
  shows "concat (map words_of (wrapText text maxWidth fontSize))
           = concat (map words_of (split CHR ''\<newline>'' text))
         \<and> (\<forall>l \<in> set (wrapText text maxWidth fontSize).
              \<forall>w \<in> set (words_of l). overflowing maxWidth fontSize w \<longrightarrow> l = w)"
proof -
  have "0 \<le> fontSize" using assms by simp
  then have "good_line maxWidth fontSize l" if "l \<in> set (wrapText text maxWidth fontSize)" for l
    using that by (rule wrapText_good)
  then show ?thesis by (simp add: wrapText_words good_line_def)
qed

theorem wrapText_keeps_words_witness:
  "(0::real) < 16
   \<and> wrapText ''a verylongword b'' 50 16 = [''a'', ''verylongword'', ''b'']
   \<and> overflowing 50 16 ''verylongword''
   \<and> concat (map words_of (wrapText ''a verylongword b'' 50 16))
       = [''a'', ''verylongword'', ''b'']"
proof -
  have h: "(0::real) < 16" by simp
  have e: "wrapText ''a verylongword b'' 50 16 = [''a'', ''verylongword'', ''b'']"
    by code_simp
  have o: "overflowing 50 16 ''verylongword''"
    by (simp add: overflowing_def)
  have w: "concat (map words_of (split CHR ''\<newline>'' ''a verylongword b''))
             = [''a'', ''verylongword'', ''b'']"
    by code_simp
  have "concat (map words_of (wrapText ''a verylongword b'' 50 16))
          = concat (map words_of (split CHR ''\<newline>'' ''a verylongword b''))
        \<and> (\<forall>l \<in> set (wrapText ''a verylongword b'' 50 16).
             \<forall>w \<in> set (words_of l). overflowing 50 16 w \<longrightarrow> l = w)"
    by (rule wrapText_keeps_words [OF h])
  with h e o w show ?thesis by simp
qed

section \<open>Overrides after a removal\<close>

lemma map_of_shiftKey:
  "map_of (shiftKey index old k new) j =
     (case map_of old k of
        None \<Rightarrow> map_of new j
      | Some v \<Rightarrow> if (k < index \<and> j = k) \<or> (index < k \<and> j = k - 1) then Some v
                  else map_of new j)"
  by (auto simp: shiftKey_def Let_def update_conv' split: option.splits)

lemma map_of_shiftKeys:
  "map_of (shiftKeys index old ks new) j =
     (if j < index then (if j \<in> set ks \<and> map_of old j \<noteq> None then map_of old j else map_of new j)
      else (if Suc j \<in> set ks \<and> map_of old (Suc j) \<noteq> None then map_of old (Suc j)
            else map_of new j))"
proof (induction ks arbitrary: new)
  case Nil
  show ?case by simp
next
  case (Cons k ks)
  show ?case
    by (cases "map_of old k") (auto simp: Cons map_of_shiftKey)
qed

lemma map_of_shiftKeys_all:
  "map_of (shiftKeys index old (map fst old) []) j =
     (if j < index then map_of old j else map_of old (Suc j))"
  by (simp add: map_of_shiftKeys map_of_eq_None_iff [symmetric])

text \<open>
  Claim C7. Removing row \<open>k\<close> re-keys the row-height overrides, and removing column \<open>k\<close>
  the column-width overrides, as follows: an index below \<open>k\<close> keeps its override (or its
  absence); every index \<open>j\<close> from \<open>k\<close> on receives what index \<open>j + 1\<close> held, so an override
  above \<open>k\<close> moves down by one with its value, and the override that index \<open>k\<close> itself
  held is dropped: the result is the same as when that override is deleted before the
  removal. Removing column 1 with the overrides \<open>{0: 100, 2: 150}\<close> leaves
  \<open>{0: 100, 1: 150}\<close>.
\<close>

theorem remove_shifts_overrides:
  "map_of (customRowHeights (config (removeRow k st))) j
     = (if j < k then map_of (customRowHeights (config st)) j
        else map_of (customRowHeights (config st)) (Suc j))
   \<and> map_of (customColumnWidths (config (removeCol k st))) j
     = (if j < k then map_of (customColumnWidths (config st)) j
        else map_of (customColumnWidths (config st)) (Suc j))
   \<and> map_of (customRowHeights (config (removeRow k
         (st\<lparr>config := (config st)\<lparr>customRowHeights :=
                 AList.delete k (customRowHeights (config st))\<rparr>\<rparr>)))) j
     = map_of (customRowHeights (config (removeRow k st))) j
   \<and> map_of (customColumnWidths (config (removeCol k
         (st\<lparr>config := (config st)\<lparr>customColumnWidths :=
                 AList.delete k (customColumnWidths (config st))\<rparr>\<rparr>)))) j
     = map_of (customColumnWidths (config (removeCol k st))) j
   \<and> customColumnWidths (config (removeCol 1
         \<lparr>data = DEFAULT_DATA,
          config = DEFAULT_CONFIG\<lparr>customColumnWidths := [(0, 100), (2, 150)]\<rparr>,
          selection = None\<rparr>))
     = [(0, 100), (1, 150)]"
proof (intro conjI)
  have rows: "map_of (customRowHeights (config (removeRow k s))) j
     = (if j < k then map_of (customRowHeights (config s)) j
        else map_of (customRowHeights (config s)) (Suc j))" for s
    by (simp add: removeRow_def Let_def map_of_shiftKeys_all)
  have cols: "map_of (customColumnWidths (config (removeCol k s))) j
     = (if j < k then map_of (customColumnWidths (config s)) j
        else map_of (customColumnWidths (config s)) (Suc j))" for s
    by (simp add: removeCol_def Let_def map_of_shiftKeys_all)
  show "map_of (customRowHeights (config (removeRow k st))) j
     = (if j < k then map_of (customRowHeights (config st)) j
        else map_of (customRowHeights (config st)) (Suc j))"
    by (rule rows)
  show "map_of (customColumnWidths (config (removeCol k st))) j
     = (if j < k then map_of (customColumnWidths (config st)) j
        else map_of (customColumnWidths (config st)) (Suc j))"
    by (rule cols)
  show "map_of (customRowHeights (config (removeRow k
         (st\<lparr>config := (config st)\<lparr>customRowHeights :=
                 AList.delete k (customRowHeights (config st))\<rparr>\<rparr>)))) j
     = map_of (customRowHeights (config (removeRow k st))) j"
    unfolding rows by (simp add: delete_conv')
  show "map_of (customColumnWidths (config (removeCol k
         (st\<lparr>config := (config st)\<lparr>customColumnWidths :=
                 AList.delete k (customColumnWidths (config st))\<rparr>\<rparr>)))) j
     = map_of (customColumnWidths (config (removeCol k st))) j"
    unfolding cols by (simp add: delete_conv')
  show "customColumnWidths (config (removeCol 1
         \<lparr>data = DEFAULT_DATA,
          config = DEFAULT_CONFIG\<lparr>customColumnWidths := [(0, 100), (2, 150)]\<rparr>,
          selection = None\<rparr>))
     = [(0, 100), (1, 150)]"
    by (simp add: removeCol_def Let_def DEFAULT_CONFIG_def shiftKey_def)
qed

section \<open>Merging and unmerging a rectangle\<close>

lemma set_rect: "(r, c) \<in> set (rect r0 r1 c0 c1) \<longleftrightarrow> r0 \<le> r \<and> r < r1 \<and> c0 \<le> c \<and> c < c1"
  by (auto simp: rect_def)

lemma join_Cons: "ws \<noteq> [] \<Longrightarrow> join sep (w # ws) = w @ sep # join sep ws"
  by (cases ws) simp_all

lemma join_append_sep:
  "ws \<noteq> [] \<Longrightarrow> join sep ((a @ sep # v) # ws) = join sep (a # v # ws)"
  by (simp add: join_Cons)

lemma visibleValues_Nil [simp]: "visibleValues d [] = []"
  by (simp add: visibleValues_def)

lemma visibleValues_Cons:
  "visibleValues d ((r, c) # ps) =
     (if \<not> hidden (d ! r ! c) \<and> value_cell (d ! r ! c) \<noteq> []
      then value_cell (d ! r ! c) # visibleValues d ps else visibleValues d ps)"
  by (simp add: visibleValues_def)

lemma combineValues_join:
  assumes "\<forall>(r, c) \<in> set ps. in_grid d r c"
  shows "combineValues d ps acc
           = Inr (join CHR ''\<newline>'' ((if acc = [] then [] else [acc]) @ visibleValues d ps))"
  using assms
proof (induction ps arbitrary: acc)
  case Nil
  show ?case by simp
next
  case (Cons p ps)
  obtain r c where p: "p = (r, c)" by (cases p)
  from Cons.prems p have ing: "in_grid d r c" and rest: "\<forall>(r, c) \<in> set ps. in_grid d r c"
    by auto
  note IH = Cons.IH [OF rest]
  show ?case
  proof (cases "\<not> hidden (d ! r ! c) \<and> value_cell (d ! r ! c) \<noteq> []")
    case False
    then show ?thesis using ing IH [of acc] by (auto simp: p visibleValues_Cons)
  next
    case True
    let ?v = "value_cell (d ! r ! c)"
    have "join CHR ''\<newline>'' ([acc @ (if acc \<noteq> [] then ''\<newline>'' else []) @ ?v] @ visibleValues d ps)
            = join CHR ''\<newline>'' ((if acc = [] then [] else [acc]) @ ?v # visibleValues d ps)"
      by (cases "visibleValues d ps") auto
    with True ing IH [of "acc @ (if acc \<noteq> [] then ''\<newline>'' else []) @ ?v"]
    show ?thesis by (simp add: p visibleValues_Cons)
  qed
qed

lemma length_setCell [simp]: "length (setCell d r c x) = length d"
  by (simp add: setCell_def)

lemma length_setCell_row [simp]: "length (setCell d r c x ! r') = length (d ! r')"
  by (cases "r' = r"; cases "r < length d") (simp_all add: setCell_def list_update_beyond)

lemma in_grid_setCell [simp]: "in_grid (setCell d r c x) r' c' = in_grid d r' c'"
  by (simp add: in_grid_def)

lemma nth_setCell:
  "in_grid d r' c' \<Longrightarrow>
   setCell d r c x ! r' ! c' = (if r' = r \<and> c' = c then x else d ! r' ! c')"
  by (cases "r' = r") (auto simp: setCell_def in_grid_def)

lemma hideCells_shape:
  "length (hideCells mR mC ps d) = length d
   \<and> length (hideCells mR mC ps d ! r) = length (d ! r)"
  by (induction mR mC ps d rule: hideCells.induct) auto

lemma in_grid_hideCells [simp]: "in_grid (hideCells mR mC ps d) r c = in_grid d r c"
  by (simp add: in_grid_def hideCells_shape)

lemma nth_hideCells:
  "in_grid d r c \<Longrightarrow>
   hideCells mR mC ps d ! r ! c =
     (if (r, c) \<in> set ps \<and> (r, c) \<noteq> (mR, mC) then hide mR mC (d ! r ! c) else d ! r ! c)"
proof (induction mR mC ps d rule: hideCells.induct)
  case (1 mR mC d)
  show ?case by simp
next
  case (2 mR mC r' c' ps d)
  show ?case
  proof (cases "r' = mR \<and> c' = mC")
    case True
    with 2 show ?thesis by auto
  next
    case False
    let ?d = "setCell d r' c' (hide mR mC (d ! r' ! c'))"
    have ing: "in_grid ?d r c" using "2.prems" by simp
    have step: "hideCells mR mC ((r', c') # ps) d = hideCells mR mC ps ?d"
      using False by (auto simp: hide_def)
    have cell: "?d ! r ! c = (if r = r' \<and> c = c' then hide mR mC (d ! r' ! c') else d ! r ! c)"
      using "2.prems" by (simp add: nth_setCell)
    have idem: "hide mR mC (hide mR mC x) = hide mR mC x" for x
      by (simp add: hide_def)
    have IH: "hideCells mR mC ps ?d ! r ! c =
        (if (r, c) \<in> set ps \<and> (r, c) \<noteq> (mR, mC) then hide mR mC (?d ! r ! c) else ?d ! r ! c)"
      using "2.IH"(2) [OF False] ing unfolding hide_def by simp
    show ?thesis
      unfolding step IH cell using False by (auto simp: idem)
  qed
qed

lemma showCells_result:
  assumes "\<forall>(r, c) \<in> set ps. in_grid d r c"
  shows "\<exists>d'. showCells mR mC ps d = Inr d'
           \<and> length d' = length d
           \<and> (\<forall>r. length (d' ! r) = length (d ! r))
           \<and> (\<forall>r c. in_grid d r c \<longrightarrow>
                  d' ! r ! c = (if (r, c) \<in> set ps \<and> (r, c) \<noteq> (mR, mC)
                                then shown (d ! r ! c) else d ! r ! c))"
  using assms
proof (induction mR mC ps d rule: showCells.induct)
  case (1 mR mC d)
  show ?case by simp
next
  case (2 mR mC r' c' ps d)
  show ?case
  proof (cases "r' = mR \<and> c' = mC")
    case True
    with 2 show ?thesis by auto
  next
    case False
    let ?d = "setCell d r' c' (shown (d ! r' ! c'))"
    from "2.prems" have ing: "in_grid d r' c'" and rest: "\<forall>(r, c) \<in> set ps. in_grid ?d r c"
      by auto
    have step: "showCells mR mC ((r', c') # ps) d = showCells mR mC ps ?d"
      using False ing by (auto simp: shown_def)
    have idem: "shown (shown x) = shown x" for x
      by (simp add: shown_def)
    from "2.IH"(2) [OF False ing] rest
    obtain d' where d': "showCells mR mC ps ?d = Inr d'" "length d' = length ?d"
        "\<forall>r. length (d' ! r) = length (?d ! r)"
        "\<forall>r c. in_grid ?d r c \<longrightarrow>
            d' ! r ! c = (if (r, c) \<in> set ps \<and> (r, c) \<noteq> (mR, mC)
                          then shown (?d ! r ! c) else ?d ! r ! c)"
      unfolding shown_def by blast
    have "d' ! r ! c = (if (r, c) \<in> set ((r', c') # ps) \<and> (r, c) \<noteq> (mR, mC)
                        then shown (d ! r ! c) else d ! r ! c)" if "in_grid d r c" for r c
      using d'(4) that False by (auto simp: nth_setCell idem)
    with d'(1-3) step show ?thesis by simp
  qed
qed

lemma getRange_ordered:
  "getRange sel = Some rg \<Longrightarrow> minR rg \<le> maxR rg \<and> minC rg \<le> maxC rg"
  by (auto simp: getRange_def split: option.splits)

lemma mergeCells_eq:
  assumes sel: "getRange (selection st) = Some rg"
      and multi: "minR rg \<noteq> maxR rg \<or> minC rg \<noteq> maxC rg"
      and inside: "\<forall>(r, c) \<in> set (rect (minR rg) (maxR rg + 1) (minC rg) (maxC rg + 1)).
                     in_grid (data st) r c"
  shows "mergeCells st =
           Inr (st\<lparr>data := hideCells (minR rg) (minC rg)
                              (rect (minR rg) (maxR rg + 1) (minC rg) (maxC rg + 1))
                              (setCell (data st) (minR rg) (minC rg) (mergedMaster (data st) rg)),
                    selection := Some \<lparr>start = (minR rg, minC rg),
                                       end_sel = (minR rg, minC rg)\<rparr>\<rparr>)"
proof -
  have cv: "combineValues (data st)
              (rect (minR rg) (Suc (maxR rg)) (minC rg) (Suc (maxC rg))) []
            = Inr (join CHR ''\<newline>'' (visibleValues (data st)
                (rect (minR rg) (Suc (maxR rg)) (minC rg) (Suc (maxC rg)))))"
    using combineValues_join [OF inside, of "[]"] by simp
  show ?thesis
    using multi by (auto simp: mergeCells_def sel Let_def cv mergedMaster_def)
qed

lemma merged_cells:
  assumes sel: "getRange (selection st) = Some rg"
      and inside: "\<forall>(r, c) \<in> set (rect (minR rg) (maxR rg + 1) (minC rg) (maxC rg + 1)).
                     in_grid (data st) r c"
      and ing: "in_grid (data st) r c"
  shows "hideCells (minR rg) (minC rg)
            (rect (minR rg) (maxR rg + 1) (minC rg) (maxC rg + 1))
            (setCell (data st) (minR rg) (minC rg) (mergedMaster (data st) rg)) ! r ! c
         = (if (r, c) = (minR rg, minC rg) then mergedMaster (data st) rg
            else if minR rg \<le> r \<and> r \<le> maxR rg \<and> minC rg \<le> c \<and> c \<le> maxC rg
            then hide (minR rg) (minC rg) (data st ! r ! c)
            else data st ! r ! c)"
  using ing by (auto simp: nth_hideCells nth_setCell set_rect)

lemma mergeCells_ABCD:
  "mergeCells stateABCD = Inr (stateABCD\<lparr>data := mergedABCD,
      selection := Some \<lparr>start = (0, 0), end_sel = (0, 0)\<rparr>\<rparr>)"
  by code_simp

text \<open>
  Claim C5. When the selection covers more than one position and lies within the grid,
  \<open>mergeCells\<close> succeeds. The cell at \<open>(minR, minC)\<close> becomes visible with row span
  \<open>maxR - minR + 1\<close>, column span \<open>maxC - minC + 1\<close>, no owner, and as its text the
  non-empty texts of the previously visible cells of the rectangle, row by row, joined by
  line breaks. Every other cell of the rectangle becomes hidden with both spans 1, empty
  text and owner \<open>(minR, minC)\<close>; the cells outside the rectangle are unchanged. Merging
  the whole of the grid A, B, C, D gives one visible cell with the text A, B, C, D on four
  lines and three hidden cells owned by \<open>(0, 0)\<close>.
\<close>

theorem mergeCells_rectangle:
  assumes sel: "getRange (selection st) = Some rg"
      and multi: "minR rg \<noteq> maxR rg \<or> minC rg \<noteq> maxC rg"
      and inside: "\<forall>(r, c) \<in> set (rect (minR rg) (maxR rg + 1) (minC rg) (maxC rg + 1)).
                     in_grid (data st) r c"
  shows "(\<exists>st'. mergeCells st = Inr st'
      \<and> data st' ! minR rg ! minC rg
          = (data st ! minR rg ! minC rg)
              \<lparr>value_cell := join CHR ''\<newline>''
                 (visibleValues (data st) (rect (minR rg) (maxR rg + 1) (minC rg) (maxC rg + 1))),
               rowSpan := maxR rg - minR rg + 1,
               colSpan := maxC rg - minC rg + 1,
               hidden := False, ownerRow := None, ownerCol := None\<rparr>
      \<and> (\<forall>r c. minR rg \<le> r \<and> r \<le> maxR rg \<and> minC rg \<le> c \<and> c \<le> maxC rg
               \<and> (r, c) \<noteq> (minR rg, minC rg) \<longrightarrow>
             data st' ! r ! c
               = (data st ! r ! c)
                   \<lparr>hidden := True, rowSpan := 1, colSpan := 1,
                    ownerRow := Some (minR rg), ownerCol := Some (minC rg),
                    value_cell := []\<rparr>)
      \<and> (\<forall>r c. in_grid (data st) r c
               \<and> \<not> (minR rg \<le> r \<and> r \<le> maxR rg \<and> minC rg \<le> c \<and> c \<le> maxC rg) \<longrightarrow>
             data st' ! r ! c = data st ! r ! c))
    \<and> mergeCells stateABCD
        = Inr (stateABCD\<lparr>data := mergedABCD,
                         selection := Some \<lparr>start = (0, 0), end_sel = (0, 0)\<rparr>\<rparr>)"
proof -
  let ?ps = "rect (minR rg) (maxR rg + 1) (minC rg) (maxC rg + 1)"
  let ?d' = "hideCells (minR rg) (minC rg) ?ps
               (setCell (data st) (minR rg) (minC rg) (mergedMaster (data st) rg))"
  note ord = getRange_ordered [OF sel]
  have ing: "in_grid (data st) r c"
    if "minR rg \<le> r \<and> r \<le> maxR rg \<and> minC rg \<le> c \<and> c \<le> maxC rg" for r c
    using inside that by (auto simp: set_rect)
  note cells = merged_cells [OF sel inside]
  have m: "?d' ! minR rg ! minC rg = mergedMaster (data st) rg"
    using cells [OF ing [of "minR rg" "minC rg"]] ord by simp
  have h: "?d' ! r ! c = hide (minR rg) (minC rg) (data st ! r ! c)"
    if "minR rg \<le> r \<and> r \<le> maxR rg \<and> minC rg \<le> c \<and> c \<le> maxC rg
          \<and> (r, c) \<noteq> (minR rg, minC rg)" for r c
    using cells [OF ing [of r c]] that by auto
  have o: "?d' ! r ! c = data st ! r ! c"
    if "in_grid (data st) r c
          \<and> \<not> (minR rg \<le> r \<and> r \<le> maxR rg \<and> minC rg \<le> c \<and> c \<le> maxC rg)" for r c
    using cells [of r c] that ord by auto
  show ?thesis
    unfolding mergeCells_eq [OF sel multi inside]
    using m h o mergeCells_ABCD
    by (simp add: mergedMaster_def hide_def)
qed

theorem mergeCells_rectangle_witness:
  "getRange (selection stateABCD) = Some \<lparr>minR = 0, maxR = 1, minC = 0, maxC = 1\<rparr>
   \<and> in_grid gridABCD 1 1
   \<and> (\<exists>st'. mergeCells stateABCD = Inr st'
        \<and> data st' ! 0 ! 0
            = \<lparr>id_cell = ''1'', value_cell = ''A\<newline>B\<newline>C\<newline>D'', rowSpan = 2, colSpan = 2,
               hidden = False, ownerRow = None, ownerCol = None\<rparr>
        \<and> data st' ! 1 ! 1
            = \<lparr>id_cell = ''4'', value_cell = [], rowSpan = 1, colSpan = 1,
               hidden = True, ownerRow = Some 0, ownerCol = Some 0\<rparr>)"
proof -
  let ?rg = "\<lparr>minR = 0, maxR = 1, minC = 0, maxC = 1\<rparr>"
  have sel: "getRange (selection stateABCD) = Some ?rg"
    by (simp add: getRange_def stateABCD_def)
  have multi: "minR ?rg \<noteq> maxR ?rg \<or> minC ?rg \<noteq> maxC ?rg"
    by simp
  have inside: "\<forall>(r, c) \<in> set (rect (minR ?rg) (maxR ?rg + 1) (minC ?rg) (maxC ?rg + 1)).
                  in_grid (data stateABCD) r c"
    by code_simp
  have g: "in_grid gridABCD 1 1"
    by code_simp
  have v: "join CHR ''\<newline>'' (visibleValues (data stateABCD)
             (rect (minR ?rg) (maxR ?rg + 1) (minC ?rg) (maxC ?rg + 1))) = ''A\<newline>B\<newline>C\<newline>D''"
    by code_simp
  have c00: "data stateABCD ! 0 ! 0 = plainCell ''1'' ''A''"
    and c11: "data stateABCD ! 1 ! 1 = plainCell ''4'' ''D''"
    by (simp_all add: stateABCD_def gridABCD_def)
  from mergeCells_rectangle [OF sel multi inside] v c00 c11 sel g
  show ?thesis
    by (auto simp: plainCell_def)
qed

text \<open>
  Claim C6. Under the same conditions, merging and then unmerging succeeds, and every cell
  of the rectangle ends with both spans 1, visible and without owner. The texts are not
  restored: the cell at \<open>(minR, minC)\<close> keeps the joined text and every other cell of the
  rectangle has the empty text.
\<close>

theorem merge_then_unmerge:
  assumes sel: "getRange (selection st) = Some rg"
      and multi: "minR rg \<noteq> maxR rg \<or> minC rg \<noteq> maxC rg"
      and inside: "\<forall>(r, c) \<in> set (rect (minR rg) (maxR rg + 1) (minC rg) (maxC rg + 1)).
                     in_grid (data st) r c"
  shows "\<exists>st' st''. mergeCells st = Inr st' \<and> unmergeCells st' = Inr st''
      \<and> (\<forall>r c. minR rg \<le> r \<and> r \<le> maxR rg \<and> minC rg \<le> c \<and> c \<le> maxC rg \<longrightarrow>
             data st'' ! r ! c
               = (data st ! r ! c)
                   \<lparr>value_cell :=
                      (if (r, c) = (minR rg, minC rg)
                       then join CHR ''\<newline>'' (visibleValues (data st)
                              (rect (minR rg) (maxR rg + 1) (minC rg) (maxC rg + 1)))
                       else []),
                    rowSpan := 1, colSpan := 1, hidden := False,
                    ownerRow := None, ownerCol := None\<rparr>)"
proof -
  let ?mR = "minR rg" and ?mC = "minC rg"
  let ?ps = "rect ?mR (maxR rg + 1) ?mC (maxC rg + 1)"
  let ?M = "mergedMaster (data st) rg"
  let ?d' = "hideCells ?mR ?mC ?ps (setCell (data st) ?mR ?mC ?M)"
  let ?st' = "st\<lparr>data := ?d', selection := Some \<lparr>start = (?mR, ?mC), end_sel = (?mR, ?mC)\<rparr>\<rparr>"
  let ?d1 = "setCell ?d' ?mR ?mC (?M\<lparr>rowSpan := 1, colSpan := 1\<rparr>)"
  note ord = getRange_ordered [OF sel]
  have merge: "mergeCells st = Inr ?st'"
    by (rule mergeCells_eq [OF sel multi inside])
  have ing: "in_grid (data st) r c" if "(r, c) \<in> set ?ps" for r c
    using inside that by auto
  have master_in: "(?mR, ?mC) \<in> set ?ps"
    using ord by (simp add: set_rect)
  note cells = merged_cells [OF sel inside]
  have m: "?d' ! ?mR ! ?mC = ?M"
    using cells [OF ing [OF master_in]] by simp
  have spans: "rowSpan ?M = maxR rg - ?mR + 1" "colSpan ?M = maxC rg - ?mC + 1"
    by (simp_all add: mergedMaster_def)
  have not1: "\<not> (rowSpan ?M = 1 \<and> colSpan ?M = 1)"
    using multi ord unfolding spans by auto
  have ps_eq: "rect ?mR (?mR + rowSpan ?M) ?mC (?mC + colSpan ?M) = ?ps"
    using ord unfolding spans by simp
  have ing1: "\<forall>(r, c) \<in> set ?ps. in_grid ?d1 r c"
    using ing by auto
  from showCells_result [OF ing1, of ?mR ?mC]
  obtain d'' where d'': "showCells ?mR ?mC ?ps ?d1 = Inr d''"
      and cell'': "\<forall>r c. in_grid ?d1 r c \<longrightarrow>
             d'' ! r ! c = (if (r, c) \<in> set ?ps \<and> (r, c) \<noteq> (?mR, ?mC)
                            then shown (?d1 ! r ! c) else ?d1 ! r ! c)"
    by blast
  have rg': "getRange (selection ?st')
               = Some \<lparr>minR = ?mR, maxR = ?mR, minC = ?mC, maxC = ?mC\<rparr>"
    by (simp add: getRange_def)
  have ing_m: "in_grid (data ?st') ?mR ?mC"
    using ing [OF master_in] by simp
  have unmerge: "unmergeCells ?st' = Inr (?st'\<lparr>data := d''\<rparr>)"
    unfolding unmergeCells_def rg' using ing_m not1
    by (auto simp add: Let_def m ps_eq d'' simp del: One_nat_def)
  have final: "d'' ! r ! c
               = (data st ! r ! c)
                   \<lparr>value_cell :=
                      (if (r, c) = (?mR, ?mC)
                       then join CHR ''\<newline>'' (visibleValues (data st) ?ps) else []),
                    rowSpan := 1, colSpan := 1, hidden := False,
                    ownerRow := None, ownerCol := None\<rparr>"
    if rc: "minR rg \<le> r \<and> r \<le> maxR rg \<and> minC rg \<le> c \<and> c \<le> maxC rg" for r c
  proof -
    have in_ps: "(r, c) \<in> set ?ps" using rc by (simp add: set_rect)
    have g: "in_grid (data st) r c" by (rule ing [OF in_ps])
    then have g1: "in_grid ?d1 r c" by simp
    have g': "in_grid ?d' r c" using g by simp
    show ?thesis
    proof (cases "(r, c) = (?mR, ?mC)")
      case True
      then have "d'' ! r ! c = ?d1 ! r ! c" using cell'' g1 by auto
      also have "\<dots> = ?M\<lparr>rowSpan := 1, colSpan := 1\<rparr>"
        using True g' by (simp add: nth_setCell)
      finally show ?thesis using True by (simp add: mergedMaster_def)
    next
      case False
      then have "d'' ! r ! c = shown (?d1 ! r ! c)" using cell'' g1 in_ps by auto
      also have "?d1 ! r ! c = ?d' ! r ! c"
        using False g' by (auto simp: nth_setCell)
      also have "?d' ! r ! c = hide ?mR ?mC (data st ! r ! c)"
        using cells [OF g] False rc by auto
      finally show ?thesis using False by (auto simp: shown_def hide_def)
    qed
  qed
  from merge unmerge final show ?thesis by auto
qed

theorem merge_then_unmerge_witness:
  "getRange (selection stateABCD) = Some \<lparr>minR = 0, maxR = 1, minC = 0, maxC = 1\<rparr>
   \<and> in_grid gridABCD 1 1
   \<and> (\<exists>st' st''. mergeCells stateABCD = Inr st' \<and> unmergeCells st' = Inr st''
        \<and> data st'' ! 0 ! 0 = plainCell ''1'' ''A\<newline>B\<newline>C\<newline>D''
        \<and> data st'' ! 1 ! 1 = plainCell ''4'' [])"
proof -
  let ?rg = "\<lparr>minR = 0, maxR = 1, minC = 0, maxC = 1\<rparr>"
  have sel: "getRange (selection stateABCD) = Some ?rg"
    by (simp add: getRange_def stateABCD_def)
  have multi: "minR ?rg \<noteq> maxR ?rg \<or> minC ?rg \<noteq> maxC ?rg"
    by simp
  have inside: "\<forall>(r, c) \<in> set (rect (minR ?rg) (maxR ?rg + 1) (minC ?rg) (maxC ?rg + 1)).
                  in_grid (data stateABCD) r c"
    by code_simp
  have g: "in_grid gridABCD 1 1"
    by code_simp
  have v: "join CHR ''\<newline>'' (visibleValues (data stateABCD)
             (rect (minR ?rg) (maxR ?rg + 1) (minC ?rg) (maxC ?rg + 1))) = ''A\<newline>B\<newline>C\<newline>D''"
    by code_simp
  have c00: "data stateABCD ! 0 ! 0 = plainCell ''1'' ''A''"
    and c11: "data stateABCD ! 1 ! 1 = plainCell ''4'' ''D''"
    by (simp_all add: stateABCD_def gridABCD_def)
  from merge_then_unmerge [OF sel multi inside] v c00 c11 sel g
  show ?thesis
    by (auto simp: plainCell_def)
qed

section \<open>Column widths of a rectangular grid\<close>

lemma colRow_result:
  assumes "i + length cells \<le> length aw"
  shows "\<exists>aw'. colRow cells i aw = Inr aw' \<and> length aw' = length aw
           \<and> (\<forall>j < length aw. aw' ! j =
                 (if i \<le> j \<and> j < i + length cells
                     \<and> colSpan (cells ! (j - i)) = 1 \<and> \<not> hidden (cells ! (j - i))
                  then max (aw ! j) (estimated (cells ! (j - i))) else aw ! j))"
  using assms
proof (induction cells arbitrary: i aw)
  case Nil
  show ?case by simp
next
  case (Cons cell cells)
  let ?aw = "if colSpan cell = 1 \<and> \<not> hidden cell
             then aw[i := max (aw ! i) (estimated cell)] else aw"
  have len: "length ?aw = length aw" by simp
  have step: "colRow (cell # cells) i aw = colRow cells (Suc i) ?aw"
    using Cons.prems by simp
  have "Suc i + length cells \<le> length ?aw" using Cons.prems by simp
  from Cons.IH [OF this]
  obtain aw' where aw': "colRow cells (Suc i) ?aw = Inr aw'" "length aw' = length ?aw"
    and nth: "\<forall>j < length ?aw. aw' ! j =
                 (if Suc i \<le> j \<and> j < Suc i + length cells
                     \<and> colSpan (cells ! (j - Suc i)) = 1 \<and> \<not> hidden (cells ! (j - Suc i))
                  then max (?aw ! j) (estimated (cells ! (j - Suc i))) else ?aw ! j)"
    by blast
  have "aw' ! j =
          (if i \<le> j \<and> j < i + length (cell # cells)
              \<and> colSpan ((cell # cells) ! (j - i)) = 1 \<and> \<not> hidden ((cell # cells) ! (j - i))
           then max (aw ! j) (estimated ((cell # cells) ! (j - i))) else aw ! j)"
    if j: "j < length aw" for j
  proof (cases "j = i")
    case True
    with nth j show ?thesis by simp
  next
    case False
    have neq: "?aw ! j = aw ! j" using False by simp
    show ?thesis
    proof (cases "Suc i \<le> j")
      case True
      then have "(cell # cells) ! (j - i) = cells ! (j - Suc i)"
        by (simp add: Suc_diff_le)
      with nth j True neq show ?thesis by (simp del: nth_Cons_Suc)
    next
      case False
      with \<open>j \<noteq> i\<close> have "j < i" by simp
      with nth j neq show ?thesis by simp
    qed
  qed
  with aw' step len show ?case by simp
qed

lemma columnEstimates_Cons:
  "columnEstimates (row # rows) j =
     (if \<not> hidden (row ! j) \<and> colSpan (row ! j) = 1
      then estimated (row ! j) # columnEstimates rows j else columnEstimates rows j)"
  by (simp add: columnEstimates_def estimated_def baseCellWidth_def)

lemma colRows_result:
  assumes "\<forall>row \<in> set rows. length row = length aw"
  shows "\<exists>aw'. colRows rows aw = Inr aw' \<and> length aw' = length aw
           \<and> (\<forall>j < length aw. aw' ! j = fold max (columnEstimates rows j) (aw ! j))"
  using assms
proof (induction rows arbitrary: aw)
  case Nil
  show ?case by (simp add: columnEstimates_def)
next
  case (Cons row rows)
  have "0 + length row \<le> length aw" using Cons.prems by simp
  from colRow_result [OF this]
  obtain aw1 where aw1: "colRow row 0 aw = Inr aw1" "length aw1 = length aw"
    and nth1: "\<forall>j < length aw. aw1 ! j =
                 (if colSpan (row ! j) = 1 \<and> \<not> hidden (row ! j)
                  then max (aw ! j) (estimated (row ! j)) else aw ! j)"
    using Cons.prems by auto
  have "\<forall>row \<in> set rows. length row = length aw1" using Cons.prems aw1 by simp
  from Cons.IH [OF this]
  obtain aw' where aw': "colRows rows aw1 = Inr aw'" "length aw' = length aw1"
    and nth: "\<forall>j < length aw1. aw' ! j = fold max (columnEstimates rows j) (aw1 ! j)"
    by blast
  have "aw' ! j = fold max (columnEstimates (row # rows) j) (aw ! j)" if "j < length aw" for j
    using nth nth1 aw1 that by (auto simp: columnEstimates_Cons max.commute)
  with aw1 aw' show ?case by simp
qed

lemma colWidths_rectangular:
  assumes "rectangular d"
  shows "\<exists>ws. colWidths d cfg = Inr ws \<and> length ws = ncols d
           \<and> (\<forall>i < ncols d. ws ! i = colWidth_amended d cfg i)"
proof (cases d)
  case Nil
  then show ?thesis by (simp add: colWidths_def ncols_def)
next
  case (Cons row0 rest)
  let ?aw = "replicate (length row0) baseCellWidth"
  have n: "ncols d = length row0" by (simp add: Cons ncols_def)
  have "\<forall>row \<in> set d. length row = length ?aw"
    using assms n by (simp add: rectangular_def)
  from colRows_result [OF this]
  obtain aw' where aw': "colRows d ?aw = Inr aw'" "length aw' = length row0"
    and nth: "\<forall>j < length row0. aw' ! j = fold max (columnEstimates d j) baseCellWidth"
    by auto
  have cw: "colWidths d cfg
      = Inr (map (\<lambda>(w, i). finalWidth cfg w i) (zip aw' [0..<length aw']))"
    using aw'(1) by (simp add: colWidths_def Cons)
  have "map (\<lambda>(w, i). finalWidth cfg w i) (zip aw' [0..<length aw']) ! i
          = colWidth_amended d cfg i" if i: "i < length row0" for i
  proof -
    have "aw' ! i = Max (set (120 # columnEstimates d i))"
      using nth i Max.set_eq_fold [of 120 "columnEstimates d i"]
      by (simp add: baseCellWidth_def)
    then show ?thesis
      using aw'(2) i
      by (simp add: finalWidth_def scaleOr1_def colWidth_amended_def split: option.splits)
  qed
  with cw aw'(2) n show ?thesis by simp
qed

section \<open>Row heights\<close>

lemma wrapWords_max0:
  "0 < cw \<Longrightarrow> wrapWords cw (max 0 x) cur ws = wrapWords cw x cur ws"
proof (induction ws arbitrary: cur)
  case Nil
  show ?case by simp
next
  case (Cons w ws)
  have "0 < real (length cur + 1 + length w) * cw"
    using Cons.prems by simp
  then have "real (length cur + 1 + length w) * cw < max 0 x
             \<longleftrightarrow> real (length cur + 1 + length w) * cw < x"
    by linarith
  with Cons show ?case by simp
qed

lemma wrapText_max0:
  "0 < fs \<Longrightarrow> wrapText t (max 0 x) fs = wrapText t x fs"
proof -
  assume "0 < fs"
  then have "0 < fs * 0.55" by simp
  then have "wrapParagraph (fs * 0.55) (max 0 x) p = wrapParagraph (fs * 0.55) x p" for p
    by (simp add: wrapParagraph_def wrapWords_max0 split: list.splits)
  then have "wrapParagraph (fs * 0.55) (max 0 x) = wrapParagraph (fs * 0.55) x"
    by (rule ext)
  then show ?thesis by (simp only: wrapText_def)
qed

lemma spanWidth_sum:
  assumes "\<forall>k \<in> set ks. c + k < length ws"
  shows "spanWidth ws c ks acc = Inr (acc + sum_list (map (\<lambda>k. ws ! (c + k)) ks))"
  using assms by (induction ks arbitrary: acc) simp_all

lemma sum_take_drop:
  "c + n \<le> length ws \<Longrightarrow>
   sum_list (take n (drop c ws)) = sum_list (map (\<lambda>k. ws ! (c + k)) [0..<n])"
proof -
  assume a: "c + n \<le> length ws"
  have "take n (drop c ws) = map (\<lambda>k. ws ! (c + k)) [0..<n]"
    by (rule nth_equalityI) (use a in auto)
  then show ?thesis by simp
qed

lemma cellWidthOf_effective:
  assumes "1 \<le> colSpan cell" "c + colSpan cell \<le> length ws"
  shows "cellWidthOf ws cell c = Inr (effectiveWidth ws c (colSpan cell))"
proof -
  have c: "c < length ws" using assms by simp
  have split: "[0..<colSpan cell] = 0 # [1..<colSpan cell]"
    using assms(1) by (simp add: upt_conv_Cons)
  have eff: "effectiveWidth ws c (colSpan cell)
               = ws ! c + sum_list (map (\<lambda>k. ws ! (c + k)) [1..<colSpan cell])"
    unfolding effectiveWidth_def sum_take_drop [OF assms(2)] split by simp
  show ?thesis
  proof (cases "colSpan cell > 1")
    case True
    have "\<forall>k \<in> set [1..<colSpan cell]. c + k < length ws" using assms(2) by auto
    from spanWidth_sum [OF this] True c eff show ?thesis
      by (simp add: cellWidthOf_def)
  next
    case False
    then have "[1..<colSpan cell] = []" by simp
    with False c eff show ?thesis by (simp add: cellWidthOf_def)
  qed
qed

lemma upt_from_Suc: "[c..<c + Suc n] = c # [Suc c..<Suc c + n]"
  by (simp add: upt_conv_Cons del: upt_Suc)

lemma zip_from_Cons:
  "zip (x # xs) [c..<c + length (x # xs)] = (x, c) # zip xs [Suc c..<Suc c + length xs]"
  using upt_from_Suc [of c "length xs"] by (simp del: upt_Suc)

lemma lineCountsFrom_Nil [simp]: "lineCountsFrom ws pad fs [] c = []"
  by (simp add: lineCountsFrom_def)

lemma lineCountsFrom_Cons:
  "lineCountsFrom ws pad fs (cell # cells) c =
     (if \<not> hidden cell \<and> rowSpan cell = 1
      then length (wrapText (value_cell cell)
                     (effectiveWidth ws c (colSpan cell) - 2 * pad) fs)
             # lineCountsFrom ws pad fs cells (Suc c)
      else lineCountsFrom ws pad fs cells (Suc c))"
  unfolding lineCountsFrom_def zip_from_Cons by simp

lemma rowLines_result:
  assumes "0 < fs"
      and "\<forall>(cell, c) \<in> set (zip cells [c0..<c0 + length cells]).
             1 \<le> rowSpan cell \<and> 1 \<le> colSpan cell \<and> c + colSpan cell \<le> length ws"
  shows "rowLines ws pad fs cells c0 m = Inr (fold max (lineCountsFrom ws pad fs cells c0) m)"
  using assms(2)
proof (induction cells arbitrary: c0 m)
  case Nil
  show ?case by simp
next
  case (Cons cell cells)
  have z: "zip (cell # cells) [c0..<c0 + length (cell # cells)]
             = (cell, c0) # zip cells [Suc c0..<Suc c0 + length cells]"
    by (rule zip_from_Cons)
  from Cons.prems have here: "1 \<le> rowSpan cell" "1 \<le> colSpan cell" "c0 + colSpan cell \<le> length ws"
    and rest: "\<forall>(cell, c) \<in> set (zip cells [Suc c0..<Suc c0 + length cells]).
             1 \<le> rowSpan cell \<and> 1 \<le> colSpan cell \<and> c + colSpan cell \<le> length ws"
    unfolding z by auto
  note IH = Cons.IH [OF rest]
  show ?case
  proof (cases "hidden cell \<or> rowSpan cell > 1")
    case True
    then have "\<not> (\<not> hidden cell \<and> rowSpan cell = 1)" by auto
    with True IH show ?thesis by (auto simp: lineCountsFrom_Cons)
  next
    case False
    then have q: "\<not> hidden cell \<and> rowSpan cell = 1" using here(1) by auto
    have w: "cellWidthOf ws cell c0 = Inr (effectiveWidth ws c0 (colSpan cell))"
      by (rule cellWidthOf_effective [OF here(2,3)])
    have m: "wrapText (value_cell cell) (max 0 (effectiveWidth ws c0 (colSpan cell) - pad * 2)) fs
               = wrapText (value_cell cell) (effectiveWidth ws c0 (colSpan cell) - 2 * pad) fs"
      by (simp add: wrapText_max0 [OF assms(1)] mult.commute)
    show ?thesis
      using False q IH
      by (simp add: lineCountsFrom_Cons w Let_def m max.commute)
  qed
qed

lemma rowHeight_result:
  assumes "\<forall>(cell, c) \<in> set (zip row [0..<length row]).
             1 \<le> rowSpan cell \<and> 1 \<le> colSpan cell \<and> c + colSpan cell \<le> length ws"
  shows "rowHeight ws cfg row r = Inr (rowHeight_computed ws cfg row r)"
proof -
  let ?fs = "if r = 0 then 20 else 16 :: real"
  have fs: "0 < ?fs" by simp
  have cond: "\<forall>(cell, c) \<in> set (zip row [0..<0 + length row]).
             1 \<le> rowSpan cell \<and> 1 \<le> colSpan cell \<and> c + colSpan cell \<le> length ws"
    using assms by simp
  have lines: "rowLines ws (padding cfg) ?fs row 0 1
                = Inr (Max (set (1 # lineCountsFrom ws (padding cfg) ?fs row 0)))"
    unfolding rowLines_result [OF fs cond] Max.set_eq_fold ..
  have auto_h: "(case rowLines ws (padding cfg) ?fs row 0 1 of
                   Inl e \<Rightarrow> Inl e
                 | Inr maxLines \<Rightarrow>
                     (let calculatedHeight = real maxLines * (?fs * 1.4) + padding cfg * 2
                      in Inr (max 50 calculatedHeight)))
                = Inr (autoHeight ws cfg row r)"
    unfolding lines by (simp add: autoHeight_def Let_def mult.commute mult.assoc)
  show ?thesis
  proof (cases "truthyHeight cfg r")
    case None
    then have "rowHeight_computed ws cfg row r = autoHeight ws cfg row r"
      by (auto simp: truthyHeight_def rowHeight_computed_def split: option.splits if_splits)
    with None auto_h show ?thesis by (simp add: rowHeight_def Let_def)
  next
    case (Some h)
    then have "rowHeight_computed ws cfg row r = h"
      by (auto simp: truthyHeight_def rowHeight_computed_def split: option.splits if_splits)
    with Some show ?thesis by (simp add: rowHeight_def)
  qed
qed

lemma rowHeightsFrom_result:
  assumes "\<forall>row \<in> set rows. \<forall>(cell, c) \<in> set (zip row [0..<length row]).
             1 \<le> rowSpan cell \<and> 1 \<le> colSpan cell \<and> c + colSpan cell \<le> length ws"
  shows "\<exists>hs. rowHeightsFrom ws cfg rows r0 = Inr hs \<and> length hs = length rows
           \<and> (\<forall>k < length rows. hs ! k = rowHeight_computed ws cfg (rows ! k) (r0 + k))"
  using assms
proof (induction rows arbitrary: r0)
  case Nil
  show ?case by simp
next
  case (Cons row rows)
  from Cons.prems have here: "\<forall>(cell, c) \<in> set (zip row [0..<length row]).
             1 \<le> rowSpan cell \<and> 1 \<le> colSpan cell \<and> c + colSpan cell \<le> length ws"
    and rest: "\<forall>row \<in> set rows. \<forall>(cell, c) \<in> set (zip row [0..<length row]).
             1 \<le> rowSpan cell \<and> 1 \<le> colSpan cell \<and> c + colSpan cell \<le> length ws"
    by simp_all
  from Cons.IH [OF rest, of "Suc r0"]
  obtain hs where hs: "rowHeightsFrom ws cfg rows (Suc r0) = Inr hs" "length hs = length rows"
    and nth: "\<forall>k < length rows. hs ! k = rowHeight_computed ws cfg (rows ! k) (Suc r0 + k)"
    by blast
  have "(rowHeight_computed ws cfg row r0 # hs) ! k
          = rowHeight_computed ws cfg ((row # rows) ! k) (r0 + k)"
    if "k < length (row # rows)" for k
    using that nth by (cases k) simp_all
  with hs rowHeight_result [OF here, of cfg r0] show ?case by simp
qed

lemma geometry_result:
  assumes "spans_in_grid d"
  shows "\<exists>ws hs. colWidths d cfg = Inr ws \<and> length ws = ncols d
           \<and> (\<forall>i < ncols d. ws ! i = colWidth_amended d cfg i)
           \<and> rowHeights d ws cfg = Inr hs \<and> length hs = length d
           \<and> (\<forall>r < length d. hs ! r = rowHeight_computed ws cfg (d ! r) r)"
proof -
  from assms have rect: "rectangular d" by (simp add: spans_in_grid_def)
  from colWidths_rectangular [OF rect, of cfg]
  obtain ws where ws: "colWidths d cfg = Inr ws" "length ws = ncols d"
      "\<forall>i < ncols d. ws ! i = colWidth_amended d cfg i"
    by blast
  have "\<forall>row \<in> set d. \<forall>(cell, c) \<in> set (zip row [0..<length row]).
             1 \<le> rowSpan cell \<and> 1 \<le> colSpan cell \<and> c + colSpan cell \<le> length ws"
    using assms ws(2) by (simp add: spans_in_grid_def)
  from rowHeightsFrom_result [OF this, of cfg 0] ws show ?thesis
    by (auto simp: rowHeights_def)
qed

lemma autoHeight_ge_50: "50 \<le> autoHeight ws cfg row r"
  by (simp add: autoHeight_def Let_def)

section \<open>Resolved widths and heights\<close>

text \<open>
  Claim C4, as stated, fails: with width scale factor 0 the source multiplies by 1
  (\<^verbatim>\<open>config.widthScale || 1\<close>), so the one column of the grid with the single cell A is
  120 wide, where the claim gives 120 times 0.
\<close>

theorem colWidths_scale_counterexample:
  "widthScale (DEFAULT_CONFIG\<lparr>widthScale := 0\<rparr>) = 0
   \<and> colWidths gridA (DEFAULT_CONFIG\<lparr>widthScale := 0\<rparr>) = Inr [120]
   \<and> colWidth_claimed gridA (DEFAULT_CONFIG\<lparr>widthScale := 0\<rparr>) 0 = 0
   \<and> [120 :: real] ! 0 \<noteq> colWidth_claimed gridA (DEFAULT_CONFIG\<lparr>widthScale := 0\<rparr>) 0"
  by code_simp

text \<open>
  Claim C4, amended. For a rectangular grid and a column \<open>i\<close> of it, \<open>colWidths\<close> succeeds
  with one width per column, and the width of column \<open>i\<close> is a base value times the width
  scale factor, or times 1 when the factor is 0. The base value is the user override of the
  column when there is one, and otherwise the largest of 120 and the estimates
  \<open>min 250 (max 120 (9 * longest line))\<close> of the visible cells of the column with column
  span 1.
\<close>

theorem colWidths_resolved:
  assumes "rectangular d" "i < ncols d"
  shows "\<exists>ws. colWidths d cfg = Inr ws \<and> length ws = ncols d
           \<and> ws ! i =
               (case map_of (customColumnWidths cfg) i of
                  Some custom \<Rightarrow> custom
                | None \<Rightarrow> Max (set (120 # columnEstimates d i)))
               * (if widthScale cfg = 0 then 1 else widthScale cfg)"
  using colWidths_rectangular [OF assms(1), of cfg] assms(2)
  by (auto simp: colWidth_amended_def)

theorem colWidths_resolved_witness:
  "rectangular gridWide \<and> 1 < ncols gridWide \<and> 0 < ncols gridWide
   \<and> (\<exists>ws. colWidths gridWide (DEFAULT_CONFIG\<lparr>widthScale := 2, customColumnWidths := [(1, 200)]\<rparr>)
              = Inr ws
          \<and> length ws = 2 \<and> ws ! 1 = 400)
   \<and> (\<exists>ws. colWidths gridWide DEFAULT_CONFIG = Inr ws \<and> length ws = 2 \<and> ws ! 1 = 250)"
proof -
  let ?cfg = "DEFAULT_CONFIG\<lparr>widthScale := 2, customColumnWidths := [(1, 200)]\<rparr>"
  have r: "rectangular gridWide" by code_simp
  have n: "ncols gridWide = 2" by code_simp
  have i: "1 < ncols gridWide" by (simp add: n)
  have e: "columnEstimates gridWide 1 = [250]" by code_simp
  have c: "customColumnWidths DEFAULT_CONFIG = []" "widthScale DEFAULT_CONFIG = 1"
    by (simp_all add: DEFAULT_CONFIG_def)
  from colWidths_resolved [OF r i, of ?cfg] colWidths_resolved [OF r i, of DEFAULT_CONFIG]
  show ?thesis using r n e c by simp
qed

text \<open>
  Claim C3. The claim is that an override that exists for a row is the height of the row,
  as the comment of the source says (``If custom height exists, use it'') and as the column
  widths do with their overrides (\<^verbatim>\<open>custom !== undefined\<close>). The source tests the override
  for truthiness, \<^verbatim>\<open>if (config.customRowHeights?.[rowIndex])\<close>, so an override equal to 0 is
  passed over: in the grid with the single cell A and the override 0 for row 0, the
  override exists, and the resolved height of the row is the computed 50, where the claim
  gives the override 0.
\<close>

theorem rowHeights_zero_override_ignored:
  "map_of (customRowHeights (DEFAULT_CONFIG\<lparr>customRowHeights := [(0, 0)]\<rparr>)) 0 = Some 0
   \<and> colWidths gridA (DEFAULT_CONFIG\<lparr>customRowHeights := [(0, 0)]\<rparr>) = Inr [120]
   \<and> rowHeights gridA [120] (DEFAULT_CONFIG\<lparr>customRowHeights := [(0, 0)]\<rparr>) = Inr [50]
   \<and> rowHeight_claimed [120] (DEFAULT_CONFIG\<lparr>customRowHeights := [(0, 0)]\<rparr>) (gridA ! 0) 0 = 0
   \<and> [50 :: real] ! 0
       \<noteq> rowHeight_claimed [120] (DEFAULT_CONFIG\<lparr>customRowHeights := [(0, 0)]\<rparr>) (gridA ! 0) 0"
  by code_simp

text \<open>
  Away from the override 0 the heights are the ones the specification gives. For a
  rectangular grid whose cells have spans of at least 1 that stay within the columns of the
  grid, and a row \<open>r\<close> of it whose override is absent or is not 0, \<open>colWidths\<close> and
  \<open>rowHeights\<close> succeed with one height per row. When an override exists for row \<open>r\<close>, the
  height of the row is the override, not scaled. Otherwise it
  is \<open>max 50 (maxLines * fontSize * 1.4 + 2 * padding)\<close>, where the font size is 20 for
  row 0 and 16 for the other rows, and \<open>maxLines\<close> is the largest of 1 and the numbers of
  lines of the visible cells of the row with row span 1, each wrapped at the sum of the
  widths of the columns it spans minus twice the padding. The empty text wraps to no line
  at all, so a cell with the empty text counts for the floor 1.
\<close>

lemma rowHeights_without_zero:
  assumes "spans_in_grid d" "r < length d" "map_of (customRowHeights cfg) r \<noteq> Some 0"
  shows "(\<exists>ws hs. colWidths d cfg = Inr ws \<and> rowHeights d ws cfg = Inr hs
            \<and> length hs = length d
            \<and> hs ! r =
                (case map_of (customRowHeights cfg) r of
                   Some h \<Rightarrow> h
                 | None \<Rightarrow>
                     (let fontSize = (if r = 0 then 20 else 16);
                          maxLines = Max (set (1 # lineCountsFrom ws (padding cfg) fontSize (d ! r) 0))
                      in max 50 (real maxLines * fontSize * 1.4 + 2 * padding cfg))))
         \<and> wrapText [] maxWidth fontSize' = []"
proof -
  from geometry_result [OF assms(1), of cfg] assms(2)
  obtain ws hs where g: "colWidths d cfg = Inr ws" "rowHeights d ws cfg = Inr hs"
      "length hs = length d" "hs ! r = rowHeight_computed ws cfg (d ! r) r"
    by blast
  have "rowHeight_computed ws cfg (d ! r) r =
          (case map_of (customRowHeights cfg) r of
             Some h \<Rightarrow> h
           | None \<Rightarrow>
               (let fontSize = (if r = 0 then 20 else 16);
                    maxLines = Max (set (1 # lineCountsFrom ws (padding cfg) fontSize (d ! r) 0))
                in max 50 (real maxLines * fontSize * 1.4 + 2 * padding cfg)))"
    using assms(3)
    by (auto simp: rowHeight_computed_def autoHeight_def Let_def split: option.splits)
  with g show ?thesis by (auto simp: wrapText_def)
qed

lemma rowHeights_without_zero_example:
  "spans_in_grid gridWide \<and> 0 < length gridWide \<and> 1 < length gridWide
   \<and> (\<exists>ws hs. colWidths gridWide DEFAULT_CONFIG = Inr ws
          \<and> rowHeights gridWide ws DEFAULT_CONFIG = Inr hs \<and> length hs = 2
          \<and> hs ! 0 = 76 \<and> hs ! 1 = 64.8)
   \<and> (\<exists>ws hs. colWidths gridWide cfgHeights = Inr ws
          \<and> rowHeights gridWide ws cfgHeights = Inr hs \<and> hs ! 1 = 70)"
proof -
  have s: "spans_in_grid gridWide" by code_simp
  have l: "length gridWide = 2" by code_simp
  have l0: "0 < length gridWide" and l1: "1 < length gridWide" by (simp_all add: l)
  have w: "colWidths gridWide DEFAULT_CONFIG = Inr [120, 250]"
          "colWidths gridWide cfgHeights = Inr [120, 250]"
    by code_simp+
  have c0: "lineCountsFrom [120, 250] 10 20 (gridWide ! 0) 0 = [2]"
    and c1: "lineCountsFrom [120, 250] 10 16 (gridWide ! Suc 0) 0 = [0, 2]"
    by code_simp+
  have p: "padding DEFAULT_CONFIG = 10" "customRowHeights DEFAULT_CONFIG = []"
    by (simp_all add: DEFAULT_CONFIG_def)
  have q: "map_of (customRowHeights cfgHeights) (Suc 0) = Some 70"
    by (simp add: cfgHeights_def DEFAULT_CONFIG_def)
  have n0: "map_of (customRowHeights DEFAULT_CONFIG) 0 \<noteq> Some 0"
    and n1: "map_of (customRowHeights DEFAULT_CONFIG) 1 \<noteq> Some 0"
    and n2: "map_of (customRowHeights cfgHeights) 1 \<noteq> Some 0"
    by (simp_all add: p q)
  from rowHeights_without_zero [OF s l0 n0] rowHeights_without_zero [OF s l1 n1]
  have a: "\<exists>ws hs. colWidths gridWide DEFAULT_CONFIG = Inr ws
          \<and> rowHeights gridWide ws DEFAULT_CONFIG = Inr hs \<and> length hs = 2
          \<and> hs ! 0 = 76 \<and> hs ! 1 = 64.8"
    by (auto simp: w l p c0 c1)
  from rowHeights_without_zero [OF s l1 n2]
  have b: "\<exists>ws hs. colWidths gridWide cfgHeights = Inr ws
          \<and> rowHeights gridWide ws cfgHeights = Inr hs \<and> hs ! 1 = 70"
    by (auto simp: w l q)
  from s l0 l1 a b show ?thesis by blast
qed

text \<open>
  Claim C10. The two override maps treat the stored value 0 differently. In a grid as in
  claim C3, a row whose height override is 0 gets the computed height, which is at least
  50, as if it had no override. In a rectangular grid, a column whose width override is 0
  gets the width 0: the override is taken as it is and multiplied by the scale factor.
\<close>

theorem zero_override_asymmetry:
  assumes "spans_in_grid d"
  shows "(\<forall>r < length d. map_of (customRowHeights cfg) r = Some 0 \<longrightarrow>
            (\<exists>ws hs hs'. colWidths d cfg = Inr ws \<and> rowHeights d ws cfg = Inr hs
               \<and> hs ! r = autoHeight ws cfg (d ! r) r \<and> 50 \<le> hs ! r
               \<and> rowHeights d ws
                    (cfg\<lparr>customRowHeights := AList.delete r (customRowHeights cfg)\<rparr>) = Inr hs'
               \<and> hs' ! r = hs ! r))
       \<and> (\<forall>c < ncols d. map_of (customColumnWidths cfg) c = Some 0 \<longrightarrow>
            (\<exists>ws. colWidths d cfg = Inr ws \<and> ws ! c = 0))"
proof (intro conjI allI impI)
  fix r assume r: "r < length d" and z: "map_of (customRowHeights cfg) r = Some 0"
  let ?cfg' = "cfg\<lparr>customRowHeights := AList.delete r (customRowHeights cfg)\<rparr>"
  from geometry_result [OF assms, of cfg] r
  obtain ws hs where g: "colWidths d cfg = Inr ws" "rowHeights d ws cfg = Inr hs"
      "hs ! r = rowHeight_computed ws cfg (d ! r) r"
    by blast
  have "finalWidth ?cfg' = finalWidth cfg"
    by (intro ext) (simp add: finalWidth_def scaleOr1_def)
  then have same: "colWidths d ?cfg' = colWidths d cfg"
    by (simp only: colWidths_def)
  from geometry_result [OF assms, of ?cfg'] r same g(1)
  obtain hs' where g': "rowHeights d ws ?cfg' = Inr hs'"
      "hs' ! r = rowHeight_computed ws ?cfg' (d ! r) r"
    by auto
  have a: "rowHeight_computed ws cfg (d ! r) r = autoHeight ws cfg (d ! r) r"
    using z by (simp add: rowHeight_computed_def)
  have a': "rowHeight_computed ws ?cfg' (d ! r) r = autoHeight ws cfg (d ! r) r"
    by (simp add: rowHeight_computed_def delete_conv' autoHeight_def)
  from g g' a a' autoHeight_ge_50 [of ws cfg "d ! r" r]
  show "\<exists>ws hs hs'. colWidths d cfg = Inr ws \<and> rowHeights d ws cfg = Inr hs
               \<and> hs ! r = autoHeight ws cfg (d ! r) r \<and> 50 \<le> hs ! r
               \<and> rowHeights d ws ?cfg' = Inr hs' \<and> hs' ! r = hs ! r"
    by auto
next
  fix c assume c: "c < ncols d" and z: "map_of (customColumnWidths cfg) c = Some 0"
  from assms have "rectangular d" by (simp add: spans_in_grid_def)
  from colWidths_rectangular [OF this, of cfg] c
  obtain ws where "colWidths d cfg = Inr ws" "ws ! c = colWidth_amended d cfg c"
    by blast
  with z show "\<exists>ws. colWidths d cfg = Inr ws \<and> ws ! c = 0"
    by (simp add: colWidth_amended_def)
qed

theorem zero_override_asymmetry_witness:
  "spans_in_grid gridA \<and> 0 < length gridA \<and> 0 < ncols gridA
   \<and> map_of (customRowHeights cfgZero) 0 = Some 0
   \<and> map_of (customColumnWidths cfgZero) 0 = Some 0
   \<and> colWidths gridA cfgZero = Inr [0]
   \<and> rowHeights gridA [0] cfgZero = Inr [50]
   \<and> (\<exists>ws hs. colWidths gridA cfgZero = Inr ws \<and> rowHeights gridA ws cfgZero = Inr hs
         \<and> 50 \<le> hs ! 0 \<and> ws ! 0 = 0)"
proof -
  have s: "spans_in_grid gridA" by code_simp
  have l: "0 < length gridA" and n: "0 < ncols gridA" by code_simp+
  have zr: "map_of (customRowHeights cfgZero) 0 = Some 0"
    and zc: "map_of (customColumnWidths cfgZero) 0 = Some 0"
    by (simp_all add: cfgZero_def)
  have e: "colWidths gridA cfgZero = Inr [0]" "rowHeights gridA [0] cfgZero = Inr [50]"
    by code_simp+
  from zero_override_asymmetry [OF s, of cfgZero] l n zr zc
  have "\<exists>ws hs. colWidths gridA cfgZero = Inr ws \<and> rowHeights gridA ws cfgZero = Inr hs
         \<and> 50 \<le> hs ! 0 \<and> ws ! 0 = 0"
    by fastforce
  with s l n zr zc e show ?thesis by blast
qed

section \<open>Rough paths without roughness\<close>

lemma overflowAt_big: "10 ^ 300 < overflowAt"
  by (simp add: overflowAt_def)

lemma overflowAt_gt_8: "8 < overflowAt"
  by (simp add: overflowAt_def)

lemma fin_Finite: "finiteDouble x \<Longrightarrow> fin x = Finite x"
  by (auto simp: fin_def finiteDouble_def)

lemma finiteDouble_small: "\<bar>x\<bar> \<le> 8 \<Longrightarrow> finiteDouble x"
  using overflowAt_gt_8 by (simp add: finiteDouble_def)

lemma atan2_bounds: "\<bar>atan2 y x\<bar> \<le> pi"
proof -
  have "- (pi / 2) < arctan (y / x)" "arctan (y / x) < pi / 2"
    by (rule arctan_lbound arctan_ubound)+
  moreover have "x < 0 \<Longrightarrow> 0 \<le> y \<Longrightarrow> arctan (y / x) \<le> 0"
    by (simp add: divide_nonneg_neg arctan_le_zero_iff)
  moreover have "x < 0 \<Longrightarrow> y < 0 \<Longrightarrow> 0 \<le> arctan (y / x)"
    by (simp add: divide_neg_neg zero_le_arctan_iff less_imp_le)
  ultimately show ?thesis
    using pi_gt_zero by (auto simp: atan2_def abs_le_iff)
qed

lemma finiteDouble_half: "finiteDouble x \<Longrightarrow> finiteDouble (x / 2)"
  by (simp add: finiteDouble_def)

lemma finiteDouble_part:
  assumes "finiteDouble (a + b)" "0 \<le> a" "0 \<le> b"
  shows "finiteDouble a" "finiteDouble b"
  using assms by (simp_all add: finiteDouble_def)

lemma finiteDouble_root:
  assumes "finiteDouble (x ^ 2)"
  shows "finiteDouble x"
proof (cases "\<bar>x\<bar> \<le> 1")
  case True
  thus ?thesis using overflowAt_gt_8 by (simp add: finiteDouble_def)
next
  case False
  hence "\<bar>x\<bar> * 1 \<le> \<bar>x\<bar> * \<bar>x\<bar>" by (intro mult_left_mono) simp_all
  hence "\<bar>x\<bar> \<le> x ^ 2" by (simp add: power2_eq_square)
  thus ?thesis using assms by (simp add: finiteDouble_def)
qed

lemma finiteDouble_sqrt:
  assumes "finiteDouble x" "0 \<le> x"
  shows "finiteDouble (sqrt x)"
proof (cases "x \<le> 1")
  case True
  hence "sqrt x \<le> 1" by simp
  moreover have "0 \<le> sqrt x" using assms(2) by simp
  ultimately have "\<bar>sqrt x\<bar> < overflowAt" using overflowAt_gt_8 by linarith
  thus ?thesis unfolding finiteDouble_def .
next
  case False
  hence "1 \<le> sqrt x" by simp
  hence "sqrt x * 1 \<le> sqrt x * sqrt x" by (intro mult_left_mono) simp_all
  hence "sqrt x \<le> x" using assms(2) by simp
  thus ?thesis using assms by (simp add: finiteDouble_def)
qed


lemma noise_zero:
  assumes "0 \<le> u \<and> u < 1"
  shows "nmul (nmul (nsub (fin u) (Finite 0.5)) (fin 0)) (Finite 2) = Finite 0"
proof -
  have u: "finiteDouble u" "finiteDouble (u - 0.5)" "finiteDouble 0"
    using assms by (auto intro!: finiteDouble_small)
  show ?thesis using u by (simp add: nsub_def fin_Finite)
qed

lemma nmul_NaN_right: "nmul a NaN = NaN"
  by (cases a) simp_all

lemma nadd_NaN_right: "nadd a NaN = NaN"
  by (cases a) simp_all

lemma overflow_path:
  "getRoughPath (- (10 ^ 200)) 0 (10 ^ 200) 0 0 0 (\<lambda>i. 1 / 4) 0
     = (\<lparr>moveX = Finite (- (10 ^ 200)), moveY = Finite 0, ctrlX = NaN, ctrlY = NaN,
         endX = Finite (10 ^ 200), endY = Finite 0\<rparr>, 5)"
proof -
  have f: "fin (10 ^ 200) = Finite (10 ^ 200)" "fin (- (10 ^ 200)) = Finite (- (10 ^ 200))"
      "fin 0 = Finite 0" "fin (1 / 4) = Finite (1 / 4)"
    by (simp_all add: fin_def overflowAt_def)
  have dx: "nsub (Finite (10 ^ 200)) (Finite (- (10 ^ 200))) = Finite (2 * 10 ^ 200)"
    by (simp add: nsub_def fin_def overflowAt_def)
  have dy: "nsub (Finite 0) (Finite 0) = Finite 0"
    by (simp add: nsub_def f)
  have sq: "npow2 (Finite (2 * 10 ^ 200)) = PosInf" "npow2 (Finite 0) = Finite 0"
    by (simp_all add: fin_def overflowAt_def)
  have len: "nsqrt (nadd PosInf (Finite 0)) = PosInf"
    by simp
  have bow: "nmul (nmul PosInf (Finite 0.05)) (Finite 0) = NaN"
    by (simp add: infTimes_def)
  have r: "nmul (nmul (nsub (Finite (1 / 4)) (Finite 0.5)) (Finite 0)) (Finite 2) = Finite 0"
    by (simp add: nsub_def fin_Finite finiteDouble_small)
  have ends: "nadd (Finite (- (10 ^ 200))) (Finite 0) = Finite (- (10 ^ 200))"
      "nadd (Finite (10 ^ 200)) (Finite 0) = Finite (10 ^ 200)"
      "nadd (Finite 0) (Finite 0) = Finite 0"
    by (simp_all add: fin_def overflowAt_def)
  show ?thesis
    unfolding getRoughPath_def Let_def
    unfolding f
    unfolding dx dy
    unfolding sq
    unfolding len r
    unfolding bow ends
    unfolding nmul_NaN_right nadd_NaN_right
    by simp
qed

text \<open>
  Claim C8, as stated, fails: for the end points \<open>(-10^200, 0)\<close> and \<open>(10^200, 0)\<close> the
  square of the difference of the first coordinates overflows, the length is infinite, the
  bow offset \<open>len * 0.05 * 0\<close> is \<^verbatim>\<open>NaN\<close>, and so are both coordinates of the control point,
  where the claim gives the midpoint \<open>(0, 0)\<close>.
\<close>

theorem getRoughPath_overflow_counterexample:
  "ctrlX (fst (getRoughPath (- (10 ^ 200)) 0 (10 ^ 200) 0 0 0 (\<lambda>i. 1 / 4) 0)) = NaN
   \<and> ctrlY (fst (getRoughPath (- (10 ^ 200)) 0 (10 ^ 200) 0 0 0 (\<lambda>i. 1 / 4) 0)) = NaN
   \<and> moveX (fst (getRoughPath (- (10 ^ 200)) 0 (10 ^ 200) 0 0 0 (\<lambda>i. 1 / 4) 0))
       = Finite (- (10 ^ 200))
   \<and> endX (fst (getRoughPath (- (10 ^ 200)) 0 (10 ^ 200) 0 0 0 (\<lambda>i. 1 / 4) 0))
       = Finite (10 ^ 200)
   \<and> ctrlX (straightPath (- (10 ^ 200)) 0 (10 ^ 200) 0) = Finite 0
   \<and> fst (getRoughPath (- (10 ^ 200)) 0 (10 ^ 200) 0 0 0 (\<lambda>i. 1 / 4) 0)
       \<noteq> straightPath (- (10 ^ 200)) 0 (10 ^ 200) 0"
  unfolding overflow_path by (simp add: straightPath_def)

text \<open>
  Claim C8, amended. When the four coordinates are finite doubles and neither the sums
  \<open>x1 + x2\<close> and \<open>y1 + y2\<close> nor the squared length \<open>(x2 - x1)^2 + (y2 - y1)^2\<close> overflow, then
  for every sequence of random draws (values of \<^verbatim>\<open>Math.random\<close>, at least 0 and below 1) and
  every position in it, \<open>getRoughPath\<close> with roughness 0 and bowing 0 returns the straight
  curve: it starts at \<open>(x1, y1)\<close>, ends at \<open>(x2, y2)\<close> and has the midpoint of the two as
  control point. It draws five random values.
\<close>

theorem getRoughPath_straight_finite:
  assumes rnd: "\<forall>i. 0 \<le> rnd i \<and> rnd i < 1"
    and x1: "finiteDouble x1" and y1: "finiteDouble y1"
    and x2: "finiteDouble x2" and y2: "finiteDouble y2"
    and mx: "finiteDouble (x1 + x2)" and my: "finiteDouble (y1 + y2)"
    and len: "finiteDouble ((x2 - x1) ^ 2 + (y2 - y1) ^ 2)"
  shows "getRoughPath x1 y1 x2 y2 0 0 rnd n = (straightPath x1 y1 x2 y2, n + 5)"
proof -
  have r: "\<And>i. nmul (nmul (nsub (fin (rnd i)) (Finite 0.5)) (fin 0)) (Finite 2) = Finite 0"
    using rnd by (intro noise_zero) simp
  have sq: "finiteDouble ((x2 - x1) ^ 2)" "finiteDouble ((y2 - y1) ^ 2)"
    using finiteDouble_part [OF len] by simp_all
  have d: "finiteDouble (x2 - x1)" "finiteDouble (y2 - y1)"
    by (rule finiteDouble_root, rule sq)+
  have dx: "nsub (fin x2) (fin x1) = Finite (x2 - x1)"
    and dy: "nsub (fin y2) (fin y1) = Finite (y2 - y1)"
    using x1 x2 y1 y2 d by (simp_all add: nsub_def fin_Finite)
  define l where "l = sqrt ((x2 - x1) ^ 2 + (y2 - y1) ^ 2)"
  have l: "nsqrt (nadd (npow2 (nsub (fin x2) (fin x1))) (npow2 (nsub (fin y2) (fin y1)))) = Finite l"
    using sq len by (simp add: dx dy fin_Finite l_def not_less)
  have l0: "0 \<le> l" by (simp add: l_def)
  have fl: "finiteDouble l"
    unfolding l_def using len by (rule finiteDouble_sqrt) simp
  have "\<bar>l * (5 / 10 ^ 2)\<bar> \<le> \<bar>l\<bar>" using l0 by simp
  hence fl5: "finiteDouble (l * (5 / 10 ^ 2))" using fl by (simp add: finiteDouble_def)
  have bow: "nmul (nmul (Finite l) (Finite 0.05)) (fin 0) = Finite 0"
    using fl5 by (simp add: fin_Finite finiteDouble_small)
  have u: "finiteDouble (rnd n)" "finiteDouble (rnd n - 0.5)"
    using rnd [rule_format, of n] by (auto intro!: finiteDouble_small)
  have rb: "nmul (nsub (fin (rnd n)) (Finite 0.5)) (Finite 0) = Finite 0"
    using u by (simp add: nsub_def fin_Finite finiteDouble_small)
  have "\<bar>atan2 (y2 - y1) (x2 - x1) + pi / 2\<bar> \<le> pi + pi / 2"
    using atan2_bounds [of "y2 - y1" "x2 - x1"] pi_gt_zero by linarith
  hence "\<bar>atan2 (y2 - y1) (x2 - x1) + pi / 2\<bar> < overflowAt"
    using pi_less_4 overflowAt_gt_8 by linarith
  hence pa: "nadd (natan2 (Finite (y2 - y1)) (Finite (x2 - x1))) (Finite (pi / 2))
               = Finite (atan2 (y2 - y1) (x2 - x1) + pi / 2)"
    by (simp add: fin_Finite finiteDouble_def)
  have hx: "nhalf (nadd (fin x1) (fin x2)) = Finite ((x1 + x2) / 2)"
    using x1 x2 mx finiteDouble_half [OF mx] by (simp add: fin_Finite)
  have hy: "nhalf (nadd (fin y1) (fin y2)) = Finite ((y1 + y2) / 2)"
    using y1 y2 my finiteDouble_half [OF my] by (simp add: fin_Finite)
  have z: "\<And>a. nmul (Finite a) (Finite 0) = Finite 0"
    by (simp add: fin_Finite finiteDouble_small)
  have ends: "nadd (fin x1) (Finite 0) = Finite x1" "nadd (fin y1) (Finite 0) = Finite y1"
    "nadd (fin x2) (Finite 0) = Finite x2" "nadd (fin y2) (Finite 0) = Finite y2"
    using x1 y1 x2 y2 by (simp_all add: fin_Finite)
  have mid: "nadd (Finite ((x1 + x2) / 2)) (Finite 0) = Finite ((x1 + x2) / 2)"
    "nadd (Finite ((y1 + y2) / 2)) (Finite 0) = Finite ((y1 + y2) / 2)"
    using finiteDouble_half [OF mx] finiteDouble_half [OF my] by (simp_all add: fin_Finite)
  show ?thesis
    unfolding getRoughPath_def Let_def straightPath_def
    unfolding l r
    unfolding bow dx dy
    unfolding rb pa hx hy
    unfolding ncos.simps nsin.simps z ends mid
    by simp
qed

theorem getRoughPath_straight_finite_witness:
  "getRoughPath 0 0 120 50 0 0 (\<lambda>i. 1 / 4) 0
     = (\<lparr>moveX = Finite 0, moveY = Finite 0, ctrlX = Finite 60, ctrlY = Finite 25,
         endX = Finite 120, endY = Finite 50\<rparr>, 5)"
  using getRoughPath_straight_finite [of "\<lambda>i. 1 / 4" 0 0 120 50 0]
  by (simp add: finiteDouble_def overflowAt_def straightPath_def)

section \<open>Rough paths near their segment\<close>

lemma abs_mult_le:
  fixes a b :: real
  assumes "\<bar>a\<bar> \<le> A" "\<bar>b\<bar> \<le> B"
  shows "\<bar>a * b\<bar> \<le> A * B"
proof -
  have "\<bar>a\<bar> * \<bar>b\<bar> \<le> A * B"
    using assms by (intro mult_mono) (auto intro: order_trans [OF abs_ge_zero])
  thus ?thesis by (simp add: abs_mult)
qed

lemma finiteDouble_le: "\<bar>x\<bar> \<le> 10 ^ 300 \<Longrightarrow> finiteDouble x"
  using overflowAt_big by (simp add: finiteDouble_def)

lemma jitter_bound:
  assumes u: "0 \<le> u \<and> u < 1" and rough: "\<bar>rough\<bar> \<le> coordBound" and x: "\<bar>x\<bar> \<le> coordBound"
  shows "\<exists>j. nadd (fin x) (nmul (nmul (nsub (fin u) (Finite 0.5)) (fin rough)) (Finite 2))
               = Finite (x + j) \<and> \<bar>j\<bar> \<le> \<bar>rough\<bar>"
proof -
  have B: "coordBound = 10 ^ 150" by (rule coordBound_def)
  have big: "(10::real) ^ 150 \<le> 10 ^ 300" "2 * (10::real) ^ 150 \<le> 10 ^ 300" by simp_all
  have fu: "fin u = Finite u" using u by (intro fin_Finite finiteDouble_small) auto
  have fr: "fin rough = Finite rough"
    using rough big unfolding B by (intro fin_Finite finiteDouble_le) linarith
  have fx: "fin x = Finite x"
    using x big unfolding B by (intro fin_Finite finiteDouble_le) linarith
  have h: "\<bar>u - 1 / 2\<bar> \<le> 1 / 2" using u by linarith
  have s: "nsub (Finite u) (Finite 0.5) = Finite (u - 1 / 2)"
    using h by (simp add: nsub_def fin_Finite finiteDouble_small)
  have m1: "\<bar>(u - 1 / 2) * rough\<bar> \<le> 1 / 2 * \<bar>rough\<bar>"
    using abs_mult_le [OF h order_refl, of rough] .
  have p1: "nmul (Finite (u - 1 / 2)) (Finite rough) = Finite ((u - 1 / 2) * rough)"
    using m1 rough big unfolding B nmul.simps by (intro fin_Finite finiteDouble_le) linarith
  define j where "j = (u - 1 / 2) * rough * 2"
  have j: "\<bar>j\<bar> \<le> \<bar>rough\<bar>" using m1 by (simp add: j_def abs_mult)
  have p2: "nmul (Finite ((u - 1 / 2) * rough)) (Finite 2) = Finite j"
    using j rough big unfolding B nmul.simps j_def by (intro fin_Finite finiteDouble_le) linarith
  have p3: "nadd (Finite x) (Finite j) = Finite (x + j)"
    using j rough x big unfolding B nadd.simps by (intro fin_Finite finiteDouble_le) linarith
  show ?thesis unfolding fu fr fx s p1 p2 p3 using j by blast
qed


lemma overflowAt_huge: "10 ^ 305 < overflowAt"
  by (simp add: overflowAt_def)

lemma finiteDouble_le': "\<bar>x\<bar> \<le> 10 ^ 305 \<Longrightarrow> finiteDouble x"
  using overflowAt_huge by (simp add: finiteDouble_def)

lemma control_bound:
  assumes u: "0 \<le> u \<and> u < 1" and bow: "\<bar>bow\<bar> \<le> coordBound"
    and x1: "\<bar>x1\<bar> \<le> coordBound" and y1: "\<bar>y1\<bar> \<le> coordBound"
    and x2: "\<bar>x2\<bar> \<le> coordBound" and y2: "\<bar>y2\<bar> \<le> coordBound"
  defines "len \<equiv> nsqrt (nadd (npow2 (nsub (fin x2) (fin x1))) (npow2 (nsub (fin y2) (fin y1))))"
  defines "perpAngle \<equiv> nadd (natan2 (nsub (fin y2) (fin y1)) (nsub (fin x2) (fin x1))) (Finite (pi / 2))"
  defines "randomBow \<equiv> nmul (nsub (fin u) (Finite 0.5)) (nmul (nmul len (Finite 0.05)) (fin bow))"
  shows "\<exists>cx cy. nadd (nhalf (nadd (fin x1) (fin x2))) (nmul (ncos perpAngle) randomBow) = Finite cx
           \<and> nadd (nhalf (nadd (fin y1) (fin y2))) (nmul (nsin perpAngle) randomBow) = Finite cy
           \<and> (cx - (x1 + x2) / 2) ^ 2 + (cy - (y1 + y2) / 2) ^ 2
                \<le> (0.025 * bow) ^ 2 * ((x2 - x1) ^ 2 + (y2 - y1) ^ 2)"
proof -
  define B :: real where "B = coordBound"
  define Q where "Q = B * B"
  have B0: "0 \<le> B" by (simp add: B_def coordBound_def)
  have BQ: "B \<le> Q" unfolding Q_def B_def coordBound_def by simp
  have Q: "Q = 10 ^ 300" unfolding Q_def B_def coordBound_def by (simp flip: power_add)
  have Q0: "0 \<le> Q" unfolding Q by simp
  have Qbig: "2 * Q \<le> 10 ^ 305" "8 * Q \<le> 10 ^ 305" unfolding Q by simp_all
  note b = bow [folded B_def] x1 [folded B_def] y1 [folded B_def] x2 [folded B_def] y2 [folded B_def]
  have fin_le: "fin x = Finite x" if "\<bar>x\<bar> \<le> 8 * Q" for x
    using that Qbig by (intro fin_Finite finiteDouble_le') linarith
  have f: "fin x1 = Finite x1" "fin y1 = Finite y1" "fin x2 = Finite x2" "fin y2 = Finite y2"
      "fin bow = Finite bow"
    using b BQ B0 by (auto intro!: fin_le)
  have fu: "fin u = Finite u" using u by (intro fin_Finite finiteDouble_small) auto
  define dx where "dx = x2 - x1"
  define dy where "dy = y2 - y1"
  have adx: "\<bar>dx\<bar> \<le> 2 * B" and ady: "\<bar>dy\<bar> \<le> 2 * B" using b by (auto simp: dx_def dy_def)
  have d: "nsub (Finite x2) (Finite x1) = Finite dx" "nsub (Finite y2) (Finite y1) = Finite dy"
    unfolding nsub_def nneg.simps nadd.simps dx_def dy_def
    using adx ady BQ B0 by (auto intro!: fin_le simp: dx_def dy_def)
  have sqx: "\<bar>dx ^ 2\<bar> \<le> 4 * Q" and sqy: "\<bar>dy ^ 2\<bar> \<le> 4 * Q"
    using abs_mult_le [OF adx adx] abs_mult_le [OF ady ady]
    by (simp_all add: Q_def power2_eq_square)
  have sq: "npow2 (Finite dx) = Finite (dx ^ 2)" "npow2 (Finite dy) = Finite (dy ^ 2)"
    unfolding npow2.simps using sqx sqy Q0 by (auto intro!: fin_le)
  have sum: "nadd (Finite (dx ^ 2)) (Finite (dy ^ 2)) = Finite (dx ^ 2 + dy ^ 2)"
    unfolding nadd.simps using sqx sqy by (intro fin_le) linarith
  define l where "l = sqrt (dx ^ 2 + dy ^ 2)"
  have l: "len = Finite l"
    unfolding len_def f d sq sum l_def by (simp add: not_less)
  have l0: "0 \<le> l" by (simp add: l_def)
  have l2: "l ^ 2 = dx ^ 2 + dy ^ 2" by (simp add: l_def)
  have al: "\<bar>l\<bar> \<le> 4 * B"
    using sqrt_sum_squares_le_sum_abs [of dx dy] adx ady l0 unfolding l_def by linarith
  have al5: "\<bar>l * (5 / 10 ^ 2)\<bar> \<le> 4 * B" using al l0 by (simp add: abs_mult) 
  have m5: "nmul (Finite l) (Finite 0.05) = Finite (l * (5 / 10 ^ 2))"
    unfolding nmul.simps using al5 BQ B0 by (intro fin_le) linarith
  define bo where "bo = l * (5 / 10 ^ 2) * bow"
  have abo: "\<bar>bo\<bar> \<le> 4 * Q"
    using abs_mult_le [OF al5 b(1)] by (simp add: bo_def Q_def)
  have mbo: "nmul (Finite (l * (5 / 10 ^ 2))) (Finite bow) = Finite bo"
    unfolding nmul.simps bo_def [symmetric] using abo Q0 by (intro fin_le) linarith
  have h: "\<bar>u - 1 / 2\<bar> \<le> 1 / 2" using u by linarith
  have s: "nsub (Finite u) (Finite 0.5) = Finite (u - 1 / 2)"
    using h by (simp add: nsub_def fin_Finite finiteDouble_small)
  define rb where "rb = (u - 1 / 2) * bo"
  have arb: "\<bar>rb\<bar> \<le> 1 / 2 * \<bar>bo\<bar>"
    using abs_mult_le [OF h order_refl, of bo] by (simp add: rb_def)
  have arb': "\<bar>rb\<bar> \<le> 2 * Q" using arb abo by linarith
  have "nmul (Finite (u - 1 / 2)) (Finite bo) = Finite rb"
    unfolding nmul.simps rb_def [symmetric] using arb' Q0 by (intro fin_le) linarith
  hence r: "randomBow = Finite rb"
    unfolding randomBow_def l m5 f mbo fu s .
  define p where "p = atan2 dy dx + pi / 2"
  have "\<bar>p\<bar> \<le> pi + pi / 2"
    using atan2_bounds [of dy dx] pi_gt_zero unfolding p_def by linarith
  hence "\<bar>p\<bar> \<le> 8" using pi_less_4 by linarith
  hence "fin p = Finite p" by (intro fin_Finite finiteDouble_small)
  hence pa: "perpAngle = Finite p"
    unfolding perpAngle_def f d natan2.simps nadd.simps p_def [symmetric] .
  have ac: "\<bar>cos p * rb\<bar> \<le> 2 * Q" and as: "\<bar>sin p * rb\<bar> \<le> 2 * Q"
    using abs_mult_le [OF abs_cos_le_one order_refl, of p rb]
          abs_mult_le [OF abs_sin_le_one order_refl, of p rb] arb' by simp_all
  have "nmul (Finite (cos p)) (Finite rb) = Finite (cos p * rb)"
    and "nmul (Finite (sin p)) (Finite rb) = Finite (sin p * rb)"
    unfolding nmul.simps using ac as Q0 by (auto intro!: fin_le)
  hence mc: "nmul (ncos perpAngle) randomBow = Finite (cos p * rb)"
    and ms: "nmul (nsin perpAngle) randomBow = Finite (sin p * rb)"
    unfolding pa r ncos.simps nsin.simps .
  have amx: "\<bar>x1 + x2\<bar> \<le> 2 * B" and amy: "\<bar>y1 + y2\<bar> \<le> 2 * B" using b by auto
  have hmx: "\<bar>(x1 + x2) / 2\<bar> \<le> B" and hmy: "\<bar>(y1 + y2) / 2\<bar> \<le> B"
    using amx amy by simp_all
  have hx: "nhalf (nadd (fin x1) (fin x2)) = Finite ((x1 + x2) / 2)"
  proof -
    have "nadd (Finite x1) (Finite x2) = Finite (x1 + x2)"
      unfolding nadd.simps using amx BQ B0 by (intro fin_le) linarith
    moreover have "fin ((x1 + x2) / 2) = Finite ((x1 + x2) / 2)"
      using hmx BQ B0 by (intro fin_le) linarith
    ultimately show ?thesis unfolding f by simp
  qed
  have hy: "nhalf (nadd (fin y1) (fin y2)) = Finite ((y1 + y2) / 2)"
  proof -
    have "nadd (Finite y1) (Finite y2) = Finite (y1 + y2)"
      unfolding nadd.simps using amy BQ B0 by (intro fin_le) linarith
    moreover have "fin ((y1 + y2) / 2) = Finite ((y1 + y2) / 2)"
      using hmy BQ B0 by (intro fin_le) linarith
    ultimately show ?thesis unfolding f by simp
  qed
  have cx: "nadd (Finite ((x1 + x2) / 2)) (Finite (cos p * rb)) = Finite ((x1 + x2) / 2 + cos p * rb)"
    unfolding nadd.simps using hmx ac BQ B0 by (intro fin_le) linarith
  have cy: "nadd (Finite ((y1 + y2) / 2)) (Finite (sin p * rb)) = Finite ((y1 + y2) / 2 + sin p * rb)"
    unfolding nadd.simps using hmy as BQ B0 by (intro fin_le) linarith
  have "(cos p * rb) ^ 2 + (sin p * rb) ^ 2 = ((cos p) ^ 2 + (sin p) ^ 2) * rb ^ 2"
    unfolding power_mult_distrib distrib_right ..
  also have "\<dots> = rb ^ 2" unfolding cos_squared_eq by simp
  also have "\<dots> = \<bar>rb\<bar> ^ 2" by simp
  also have "\<dots> \<le> (1 / 2 * \<bar>bo\<bar>) ^ 2"
    using arb by (intro power_mono) simp_all
  also have "\<dots> = 1 / 4 * bo ^ 2"
    by (simp add: power_mult_distrib power2_eq_square)
  also have "\<dots> = (0.025 * bow) ^ 2 * l ^ 2"
    unfolding bo_def by (simp add: power2_eq_square)
  finally have near: "(cos p * rb) ^ 2 + (sin p * rb) ^ 2
      \<le> (0.025 * bow) ^ 2 * ((x2 - x1) ^ 2 + (y2 - y1) ^ 2)"
    unfolding l2 dx_def dy_def .
  show ?thesis
    unfolding hx hy mc ms cx cy using near by simp
qed

lemma getRoughPath_near:
  assumes rnd: "\<forall>i. 0 \<le> rnd i \<and> rnd i < 1"
    and rough: "\<bar>rough\<bar> \<le> coordBound" and bow: "\<bar>bow\<bar> \<le> coordBound"
    and x1: "\<bar>x1\<bar> \<le> coordBound" and y1: "\<bar>y1\<bar> \<le> coordBound"
    and x2: "\<bar>x2\<bar> \<le> coordBound" and y2: "\<bar>y2\<bar> \<le> coordBound"
  shows "nearSegment rough bow (x1, y1, x2, y2) (fst (getRoughPath x1 y1 x2 y2 rough bow rnd m))"
proof -
  note u = rnd [rule_format]
  from jitter_bound [OF u rough x1, of "m + 1"] obtain j1 where
    j1: "nadd (fin x1) (nmul (nmul (nsub (fin (rnd (m + 1))) (Finite 0.5)) (fin rough)) (Finite 2))
           = Finite (x1 + j1)" "\<bar>j1\<bar> \<le> \<bar>rough\<bar>"
    by blast
  from jitter_bound [OF u rough y1, of "m + 2"] obtain j2 where
    j2: "nadd (fin y1) (nmul (nmul (nsub (fin (rnd (m + 2))) (Finite 0.5)) (fin rough)) (Finite 2))
           = Finite (y1 + j2)" "\<bar>j2\<bar> \<le> \<bar>rough\<bar>"
    by blast
  from jitter_bound [OF u rough x2, of "m + 3"] obtain j3 where
    j3: "nadd (fin x2) (nmul (nmul (nsub (fin (rnd (m + 3))) (Finite 0.5)) (fin rough)) (Finite 2))
           = Finite (x2 + j3)" "\<bar>j3\<bar> \<le> \<bar>rough\<bar>"
    by blast
  from jitter_bound [OF u rough y2, of "m + 4"] obtain j4 where
    j4: "nadd (fin y2) (nmul (nmul (nsub (fin (rnd (m + 4))) (Finite 0.5)) (fin rough)) (Finite 2))
           = Finite (y2 + j4)" "\<bar>j4\<bar> \<le> \<bar>rough\<bar>"
    by blast
  from control_bound [OF u bow x1 y1 x2 y2, of m] obtain cx cy where
    c: "nadd (nhalf (nadd (fin x1) (fin x2)))
          (nmul (ncos (nadd (natan2 (nsub (fin y2) (fin y1)) (nsub (fin x2) (fin x1))) (Finite (pi / 2))))
             (nmul (nsub (fin (rnd m)) (Finite 0.5))
                (nmul (nmul (nsqrt (nadd (npow2 (nsub (fin x2) (fin x1))) (npow2 (nsub (fin y2) (fin y1)))))
                         (Finite 0.05)) (fin bow)))) = Finite cx"
       "nadd (nhalf (nadd (fin y1) (fin y2)))
          (nmul (nsin (nadd (natan2 (nsub (fin y2) (fin y1)) (nsub (fin x2) (fin x1))) (Finite (pi / 2))))
             (nmul (nsub (fin (rnd m)) (Finite 0.5))
                (nmul (nmul (nsqrt (nadd (npow2 (nsub (fin x2) (fin x1))) (npow2 (nsub (fin y2) (fin y1)))))
                         (Finite 0.05)) (fin bow)))) = Finite cy"
       "(cx - (x1 + x2) / 2) ^ 2 + (cy - (y1 + y2) / 2) ^ 2
                \<le> (0.025 * bow) ^ 2 * ((x2 - x1) ^ 2 + (y2 - y1) ^ 2)"
    by blast
  have "fst (getRoughPath x1 y1 x2 y2 rough bow rnd m)
          = \<lparr>moveX = Finite (x1 + j1), moveY = Finite (y1 + j2), ctrlX = Finite cx, ctrlY = Finite cy,
              endX = Finite (x2 + j3), endY = Finite (y2 + j4)\<rparr>"
    unfolding getRoughPath_def Let_def j1(1) j2(1) j3(1) j4(1) c(1) c(2) by simp
  thus ?thesis
    using j1(2) j2(2) j3(2) j4(2) c(3) by (simp add: nearSegment_def)
qed


section \<open>Render passes and random values\<close>

lemma strokeAll_append:
  "strokeAll cfg rnd (a @ b) st = strokeAll cfg rnd b (strokeAll cfg rnd a st)"
  by (induction a arbitrary: st) simp_all

lemma hLoop_plan:
  "hLoop d xs ys cfg rnd cands st =
     (case hPlan d xs ys cands of
        Inl e \<Rightarrow> Inl e
      | Inr segs \<Rightarrow> Inr (strokeAll cfg rnd segs st))"
proof (induction cands arbitrary: st)
  case Nil
  show ?case by simp
next
  case (Cons p cands)
  obtain r c where p: "p = (r, c)" by (cases p)
  show ?case
    unfolding p by (auto simp: Cons split: sum.splits)
qed

lemma vLoop_plan:
  "vLoop d xs ys cfg rnd cands st =
     (case vPlan d xs ys cands of
        Inl e \<Rightarrow> Inl e
      | Inr segs \<Rightarrow> Inr (strokeAll cfg rnd segs st))"
proof (induction cands arbitrary: st)
  case Nil
  show ?case by simp
next
  case (Cons p cands)
  obtain c r where p: "p = (c, r)" by (cases p)
  show ?case
    unfolding p by (auto simp: Cons split: sum.splits)
qed

lemma paths_plan:
  "paths d xs ys cfg rnd n =
     (case segmentPlan d xs ys of
        Inl e \<Rightarrow> Inl e
      | Inr segs \<Rightarrow> Inr (strokeAll cfg rnd segs ([], n)))"
  by (simp add: paths_def segmentPlan_def Let_def hLoop_plan vLoop_plan strokeAll_append
        split: sum.splits)

lemma skeleton_pushStrokes:
  "map skeleton (fst (pushStrokes cfg rnd k kd x1 y1 x2 y2 st))
     = map skeleton (fst st)
       @ (k, stroke cfg, strokeWidth cfg, None)
       # (if roughness cfg > 0.5 then [(kd, stroke cfg, strokeWidth cfg * 0.5, Some 0.6)] else [])"
  by (simp add: pushStrokes_def Let_def skeleton_def split: prod.splits)

lemma skeleton_strokeAll:
  "map skeleton (fst (strokeAll cfg rnd segs st))
     = map skeleton (fst st) @ concat (map (segSkeleton cfg) segs)"
proof (induction segs arbitrary: st)
  case Nil
  show ?case by simp
next
  case (Cons s segs)
  show ?case
    by (simp add: Cons skeleton_pushStrokes segSkeleton_def)
qed

lemma keys_strokeAll:
  "map el_key (fst (strokeAll cfg rnd segs ([], n))) = planned cfg segs"
proof -
  have "map el_key (fst (strokeAll cfg rnd segs ([], n)))
          = map fst (map skeleton (fst (strokeAll cfg rnd segs ([], n))))"
    by (simp add: skeleton_def comp_def)
  also have "\<dots> = map fst (concat (map (segSkeleton cfg) segs))"
    by (simp only: skeleton_strokeAll) simp
  also have "\<dots> = planned cfg segs"
    by (induction segs) (simp_all add: planned_def segSkeleton_def)
  finally show ?thesis .
qed

lemma paths_alike:
  "(\<exists>e. paths d xs ys cfg rnd1 n1 = Inl e \<and> paths d xs ys cfg rnd2 n2 = Inl e)
   \<or> (\<exists>l1 m1 l2 m2. paths d xs ys cfg rnd1 n1 = Inr (l1, m1)
          \<and> paths d xs ys cfg rnd2 n2 = Inr (l2, m2)
          \<and> map skeleton l1 = map skeleton l2)"
proof (cases "segmentPlan d xs ys")
  case (Inl e)
  then show ?thesis by (simp add: paths_plan)
next
  case (Inr segs)
  obtain l1 m1 where s1: "strokeAll cfg rnd1 segs ([], n1) = (l1, m1)"
    by (cases "strokeAll cfg rnd1 segs ([], n1)")
  obtain l2 m2 where s2: "strokeAll cfg rnd2 segs ([], n2) = (l2, m2)"
    by (cases "strokeAll cfg rnd2 segs ([], n2)")
  have "map skeleton l1 = map skeleton l2"
    using skeleton_strokeAll [of cfg rnd1 segs "([], n1)"]
          skeleton_strokeAll [of cfg rnd2 segs "([], n2)"] s1 s2
    by simp
  with Inr s1 s2 show ?thesis by (simp add: paths_plan)
qed

lemma render_geometry:
  "map_sum id (geometry \<circ> fst) (render d cfg rnd1 n1)
     = map_sum id (geometry \<circ> fst) (render d cfg rnd2 n2)"
proof (cases "colWidths d cfg")
  case (Inl e)
  then show ?thesis by (simp add: render_def)
next
  case cw: (Inr cw)
  show ?thesis
  proof (cases "rowHeights d cw cfg")
    case (Inl e)
    with cw show ?thesis by (simp add: render_def)
  next
    case rh: (Inr rh)
    from paths_alike [of d "xPositions cw" "yPositions rh" cfg rnd1 n1 rnd2 n2]
    show ?thesis
      by (auto simp: render_def cw rh Let_def geometry_def)
  qed
qed

text \<open>
  Claim C9. Two render passes of the same grid and configuration, with any two sources of
  random values, fail alike or give the same column widths, row heights, offsets and total
  extent and the same path elements apart from the paths themselves. The grid lines are
  the strokes of a list of segments, with their end points, that is computed from the grid
  and the offsets alone; the keys of the elements are those of the list.
\<close>

theorem render_decisions_fixed:
  "map_sum id (geometry \<circ> fst) (render d cfg rnd1 n1)
     = map_sum id (geometry \<circ> fst) (render d cfg rnd2 n2)
   \<and> paths d xs ys cfg rnd n =
       (case segmentPlan d xs ys of
          Inl e \<Rightarrow> Inl e
        | Inr segs \<Rightarrow> Inr (strokeAll cfg rnd segs ([], n)))
   \<and> map el_key (fst (strokeAll cfg rnd segs ([], n))) = planned cfg segs"
  using render_geometry paths_plan keys_strokeAll by blast

section \<open>Grid lines and merged rectangles\<close>

lemma in_positions: "(r, c) \<in> set (positions d) \<longleftrightarrow> r < length d \<and> c < ncols d"
  by (auto simp: positions_def rect_def)

lemma rectangular_row: "rectangular d \<Longrightarrow> r < length d \<Longrightarrow> length (d ! r) = ncols d"
  by (simp add: rectangular_def)

lemma rectangular_in_grid:
  "rectangular d \<Longrightarrow> in_grid d r c \<longleftrightarrow> r < length d \<and> c < ncols d"
  by (auto simp: in_grid_def rectangular_row)

lemma grid_inv_rect: "grid_inv d \<Longrightarrow> rectangular d"
  by (simp add: grid_inv_def)

lemma grid_inv_cell:
  "grid_inv d \<Longrightarrow> r < length d \<Longrightarrow> c < ncols d \<Longrightarrow> cell_ok d r c"
  unfolding grid_inv_def using in_positions [of r c d] by blast

lemma covers_in_positions:
  assumes "grid_inv d" "covers d R C r c"
  shows "R < length d \<and> C < ncols d \<and> r < length d \<and> c < ncols d"
proof -
  from assms have RC: "R < length d" "C < ncols d"
    by (auto simp: covers_def rectangular_in_grid [OF grid_inv_rect])
  from grid_inv_cell [OF assms(1) RC] assms(2)
  show ?thesis using RC by (auto simp: cell_ok_def covers_def Let_def)
qed

lemma covers_unique:
  assumes inv: "grid_inv d" and a: "covers d R C r c" and b: "covers d R' C' r c"
  shows "R = R' \<and> C = C'"
proof -
  note pa = covers_in_positions [OF inv a] and pb = covers_in_positions [OF inv b]
  have "(r, c) \<in> set (positions d)" "(R, C) \<in> set (positions d)" "(R', C') \<in> set (positions d)"
    using pa pb by (simp_all add: in_positions)
  with inv a b show ?thesis unfolding grid_inv_def by blast
qed

lemma ncols_nth0: "r < length d \<Longrightarrow> ncols d = length (d ! 0)"
  by (cases d) (simp_all add: ncols_def)

lemma getCellAt_owner:
  assumes inv: "grid_inv d" and r: "r < length d" and c: "c < ncols d"
  shows "\<exists>oR oC. getCellAt d r c
                   = Inr (Some \<lparr>eff_cell = Some (d ! oR ! oC), eff_r = oR, eff_c = oC\<rparr>)
                 \<and> covers d oR oC r c"
proof -
  note rect = grid_inv_rect [OF inv]
  have c0: "c < length (d ! 0)" using c ncols_nth0 [OF r] by simp
  have cr: "c < length (d ! r)" using c rectangular_row [OF rect r] by simp
  note ok = grid_inv_cell [OF inv r c]
  show ?thesis
  proof (cases "hidden (d ! r ! c)")
    case False
    with ok have "covers d r c r c"
      by (simp add: cell_ok_def covers_def in_grid_def r cr Let_def)
    moreover have "getCellAt d r c
        = Inr (Some \<lparr>eff_cell = Some (d ! r ! c), eff_r = r, eff_c = c\<rparr>)"
      using False r c0 cr by (simp add: getCellAt_def)
    ultimately show ?thesis by blast
  next
    case True
    with ok obtain oR oC where o: "ownerRow (d ! r ! c) = Some oR" "ownerCol (d ! r ! c) = Some oC"
        and cov: "covers d oR oC r c"
      by (auto simp: cell_ok_def Let_def split: option.splits)
    from cov have "oR < length d" "oC < length (d ! oR)"
      by (simp_all add: covers_def in_grid_def)
    then have "getCellAt d r c
        = Inr (Some \<lparr>eff_cell = Some (d ! oR ! oC), eff_r = oR, eff_c = oC\<rparr>)"
      using True r c0 cr o by (simp add: getCellAt_def Let_def)
    with cov show ?thesis by blast
  qed
qed

lemma shouldDrawH_inner:
  assumes inv: "grid_inv d" and r: "0 < r" "r < length d" and c: "c < ncols d"
  shows "\<exists>oR oC. covers d oR oC (r - 1) c
           \<and> getCellAt d (r - 1) c
               = Inr (Some \<lparr>eff_cell = Some (d ! oR ! oC), eff_r = oR, eff_c = oC\<rparr>)
           \<and> shouldDrawH d r c = Inr (oR + rowSpan (d ! oR ! oC) \<le> r)"
proof -
  have "r - 1 < length d" using r by simp
  from getCellAt_owner [OF inv this c]
  obtain oR oC where g: "getCellAt d (r - 1) c
                   = Inr (Some \<lparr>eff_cell = Some (d ! oR ! oC), eff_r = oR, eff_c = oC\<rparr>)"
      and cov: "covers d oR oC (r - 1) c"
    by blast
  have "shouldDrawH d r c = Inr (oR + rowSpan (d ! oR ! oC) \<le> r)"
    using r g by (simp add: shouldDrawH_def not_less)
  with g cov show ?thesis by blast
qed

lemma shouldDrawV_inner:
  assumes inv: "grid_inv d" and c: "0 < c" "c < ncols d" and r: "r < length d"
  shows "\<exists>oR oC. covers d oR oC r (c - 1)
           \<and> getCellAt d r (c - 1)
               = Inr (Some \<lparr>eff_cell = Some (d ! oR ! oC), eff_r = oR, eff_c = oC\<rparr>)
           \<and> shouldDrawV d c r = Inr (oC + colSpan (d ! oR ! oC) \<le> c)"
proof -
  have "c - 1 < ncols d" using c by simp
  from getCellAt_owner [OF inv r this]
  obtain oR oC where g: "getCellAt d r (c - 1)
                   = Inr (Some \<lparr>eff_cell = Some (d ! oR ! oC), eff_r = oR, eff_c = oC\<rparr>)"
      and cov: "covers d oR oC r (c - 1)"
    by blast
  have "shouldDrawV d c r = Inr (oC + colSpan (d ! oR ! oC) \<le> c)"
    using c g by (simp add: shouldDrawV_def not_less)
  with g cov show ?thesis by blast
qed

lemma shouldDrawH_total:
  assumes inv: "grid_inv d" and r: "r \<le> length d" and c: "c < ncols d"
  shows "\<exists>b. shouldDrawH d r c = Inr b"
proof (cases "r = 0 \<or> r = length d")
  case True
  then show ?thesis by (auto simp: shouldDrawH_def)
next
  case False
  then have "0 < r" "r < length d" using r by auto
  from shouldDrawH_inner [OF inv this c] show ?thesis by blast
qed

lemma shouldDrawV_total:
  assumes inv: "grid_inv d" and c: "c \<le> ncols d" and r: "r < length d"
  shows "\<exists>b. shouldDrawV d c r = Inr b"
proof (cases "c = 0 \<or> c = ncols d")
  case True
  then show ?thesis by (auto simp: shouldDrawV_def)
next
  case False
  then have "0 < c" "c < ncols d" using c by auto
  from shouldDrawV_inner [OF inv this r] show ?thesis by blast
qed

lemma hPlan_keys:
  assumes "\<forall>(r, c) \<in> set cands. (\<exists>b. shouldDrawH d r c = Inr b) \<and> c + 1 < length xs \<and> r < length ys"
  shows "\<exists>segs. hPlan d xs ys cands = Inr segs
           \<and> map (\<lambda>s. (seg_key s, seg_keyD s)) segs
               = map (\<lambda>(r, c). (HKey r c, HKeyD r c))
                   (filter (\<lambda>(r, c). shouldDrawH d r c = Inr True) cands)"
  using assms
proof (induction cands)
  case Nil
  show ?case by simp
next
  case (Cons p cands)
  obtain r c where p: "p = (r, c)" by (cases p)
  from Cons.prems p obtain b where b: "shouldDrawH d r c = Inr b"
      and rng: "c + 1 < length xs" "r < length ys"
    by auto
  from Cons.prems have "\<forall>(r, c) \<in> set cands.
      (\<exists>b. shouldDrawH d r c = Inr b) \<and> c + 1 < length xs \<and> r < length ys"
    by simp
  from Cons.IH [OF this] obtain segs where segs: "hPlan d xs ys cands = Inr segs"
      "map (\<lambda>s. (seg_key s, seg_keyD s)) segs
               = map (\<lambda>(r, c). (HKey r c, HKeyD r c))
                   (filter (\<lambda>(r, c). shouldDrawH d r c = Inr True) cands)"
    by blast
  show ?case
    unfolding p using b rng segs by (cases b) simp_all
qed

lemma vPlan_keys:
  assumes "\<forall>(c, r) \<in> set cands. (\<exists>b. shouldDrawV d c r = Inr b) \<and> c < length xs \<and> r + 1 < length ys"
  shows "\<exists>segs. vPlan d xs ys cands = Inr segs
           \<and> map (\<lambda>s. (seg_key s, seg_keyD s)) segs
               = map (\<lambda>(c, r). (VKey c r, VKeyD c r))
                   (filter (\<lambda>(c, r). shouldDrawV d c r = Inr True) cands)"
  using assms
proof (induction cands)
  case Nil
  show ?case by simp
next
  case (Cons p cands)
  obtain c r where p: "p = (c, r)" by (cases p)
  from Cons.prems p obtain b where b: "shouldDrawV d c r = Inr b"
      and rng: "c < length xs" "r + 1 < length ys"
    by auto
  from Cons.prems have "\<forall>(c, r) \<in> set cands.
      (\<exists>b. shouldDrawV d c r = Inr b) \<and> c < length xs \<and> r + 1 < length ys"
    by simp
  from Cons.IH [OF this] obtain segs where segs: "vPlan d xs ys cands = Inr segs"
      "map (\<lambda>s. (seg_key s, seg_keyD s)) segs
               = map (\<lambda>(c, r). (VKey c r, VKeyD c r))
                   (filter (\<lambda>(c, r). shouldDrawV d c r = Inr True) cands)"
    by blast
  show ?case
    unfolding p using b rng segs by (cases b) simp_all
qed

lemma planned_keys:
  "set (planned cfg segs)
     = seg_key ` set segs \<union> (if roughness cfg > 0.5 then seg_keyD ` set segs else {})"
  by (induction segs) (auto simp: planned_def)

lemma plan_key_sets:
  assumes "map (\<lambda>s. (seg_key s, seg_keyD s)) segs = map f cands"
  shows "seg_key ` set segs = (fst \<circ> f) ` set cands"
    and "seg_keyD ` set segs = (snd \<circ> f) ` set cands"
proof -
  have "seg_key ` set segs = set (map fst (map (\<lambda>s. (seg_key s, seg_keyD s)) segs))"
    by (simp add: comp_def)
  then show "seg_key ` set segs = (fst \<circ> f) ` set cands"
    unfolding assms by simp
  have "seg_keyD ` set segs = set (map snd (map (\<lambda>s. (seg_key s, seg_keyD s)) segs))"
    by (simp add: comp_def)
  then show "seg_keyD ` set segs = (snd \<circ> f) ` set cands"
    unfolding assms by simp
qed

lemma getRoughPath_count:
  "getRoughPath x1 y1 x2 y2 rough bow rnd m = (fst (getRoughPath x1 y1 x2 y2 rough bow rnd m), m + 5)"
  by (simp add: getRoughPath_def Let_def)

lemma el_key_strokeAt: "el_key (strokeAt xs ys cfg rnd m k) = k"
  by (simp add: strokeAt_def split: prod.splits)

lemma pushStrokes_strokeAt:
  assumes "lineEnds xs ys k = (x1, y1, x2, y2)" "lineEnds xs ys kd = (x1, y1, x2, y2)"
    and "\<not> secondStroke k" "secondStroke kd"
  shows "pushStrokes cfg rnd k kd x1 y1 x2 y2 (ls, m) =
           (if roughness cfg > 0.5
            then (ls @ [strokeAt xs ys cfg rnd m k, strokeAt xs ys cfg rnd (m + 5) kd], m + 10)
            else (ls @ [strokeAt xs ys cfg rnd m k], m + 5))"
proof -
  obtain p1 where p1: "getRoughPath x1 y1 x2 y2 (roughness cfg) (bowing cfg) rnd m = (p1, m + 5)"
    using getRoughPath_count by blast
  obtain p2 where p2: "getRoughPath x1 y1 x2 y2 (roughness cfg) (bowing cfg) rnd (m + 5) = (p2, m + 5 + 5)"
    using getRoughPath_count by blast
  show ?thesis
    using assms by (simp add: pushStrokes_def strokeAt_def Let_def p1 p2)
qed

lemma strokeAll_strokeAt:
  assumes "\<forall>s \<in> set segs. lineEnds xs ys (seg_key s) = (seg_x1 s, seg_y1 s, seg_x2 s, seg_y2 s)
              \<and> lineEnds xs ys (seg_keyD s) = (seg_x1 s, seg_y1 s, seg_x2 s, seg_y2 s)
              \<and> \<not> secondStroke (seg_key s) \<and> secondStroke (seg_keyD s)"
    and "m = n + 5 * length ls"
    and "\<forall>i < length ls. ls ! i = strokeAt xs ys cfg rnd (n + 5 * i) (el_key (ls ! i))"
  shows "\<exists>ls' m'. strokeAll cfg rnd segs (ls, m) = (ls', m') \<and> m' = n + 5 * length ls'
           \<and> (\<forall>i < length ls'. ls' ! i = strokeAt xs ys cfg rnd (n + 5 * i) (el_key (ls' ! i)))"
  using assms
proof (induction segs arbitrary: ls m)
  case Nil
  then show ?case by simp
next
  case (Cons s segs)
  from Cons.prems(1) have e: "lineEnds xs ys (seg_key s) = (seg_x1 s, seg_y1 s, seg_x2 s, seg_y2 s)"
      "lineEnds xs ys (seg_keyD s) = (seg_x1 s, seg_y1 s, seg_x2 s, seg_y2 s)"
      "\<not> secondStroke (seg_key s)" "secondStroke (seg_keyD s)"
    by simp_all
  note ps = pushStrokes_strokeAt [OF e, of cfg rnd ls m]
  from Cons.prems(1) have rest: "\<forall>s \<in> set segs.
      lineEnds xs ys (seg_key s) = (seg_x1 s, seg_y1 s, seg_x2 s, seg_y2 s)
      \<and> lineEnds xs ys (seg_keyD s) = (seg_x1 s, seg_y1 s, seg_x2 s, seg_y2 s)
      \<and> \<not> secondStroke (seg_key s) \<and> secondStroke (seg_keyD s)"
    by simp
  show ?case
  proof (cases "roughness cfg > 0.5")
    case True
    let ?ls = "ls @ [strokeAt xs ys cfg rnd m (seg_key s), strokeAt xs ys cfg rnd (m + 5) (seg_keyD s)]"
    have m: "m + 10 = n + 5 * length ?ls" using Cons.prems(2) by simp
    have inv: "\<forall>i < length ?ls. ?ls ! i = strokeAt xs ys cfg rnd (n + 5 * i) (el_key (?ls ! i))"
    proof (intro allI impI)
      fix i assume i: "i < length ?ls"
      consider "i < length ls" | "i = length ls" | "i = Suc (length ls)" using i by force
      then show "?ls ! i = strokeAt xs ys cfg rnd (n + 5 * i) (el_key (?ls ! i))"
      proof cases
        case 1
        then show ?thesis using Cons.prems(3) by (simp add: nth_append)
      next
        case 2
        then show ?thesis using Cons.prems(2) by (simp add: nth_append el_key_strokeAt)
      next
        case 3
        have "m + 5 = n + 5 * i" using 3 Cons.prems(2) by simp
        moreover have "?ls ! i = strokeAt xs ys cfg rnd (m + 5) (seg_keyD s)"
          using 3 by (simp add: nth_append)
        ultimately show ?thesis by (simp only: el_key_strokeAt)
      qed
    qed
    from Cons.IH [OF rest m inv] show ?thesis using True ps by simp
  next
    case False
    let ?ls = "ls @ [strokeAt xs ys cfg rnd m (seg_key s)]"
    have m: "m + 5 = n + 5 * length ?ls" using Cons.prems(2) by simp
    have inv: "\<forall>i < length ?ls. ?ls ! i = strokeAt xs ys cfg rnd (n + 5 * i) (el_key (?ls ! i))"
    proof (intro allI impI)
      fix i assume i: "i < length ?ls"
      consider "i < length ls" | "i = length ls" using i by force
      then show "?ls ! i = strokeAt xs ys cfg rnd (n + 5 * i) (el_key (?ls ! i))"
      proof cases
        case 1
        then show ?thesis using Cons.prems(3) by (simp add: nth_append)
      next
        case 2
        then show ?thesis using Cons.prems(2) by (simp add: nth_append el_key_strokeAt)
      qed
    qed
    from Cons.IH [OF rest m inv] show ?thesis using False ps by simp
  qed
qed

lemma hPlan_ends:
  "hPlan d xs ys cands = Inr segs \<Longrightarrow>
     \<forall>s \<in> set segs. lineEnds xs ys (seg_key s) = (seg_x1 s, seg_y1 s, seg_x2 s, seg_y2 s)
        \<and> lineEnds xs ys (seg_keyD s) = (seg_x1 s, seg_y1 s, seg_x2 s, seg_y2 s)
        \<and> \<not> secondStroke (seg_key s) \<and> secondStroke (seg_keyD s)"
proof (induction cands arbitrary: segs)
  case Nil
  then show ?case by simp
next
  case (Cons p cands)
  obtain r c where p: "p = (r, c)" by (cases p)
  from Cons.prems show ?case
    unfolding p
    by (auto simp: lineEnds_def secondStroke_def dest!: Cons.IH
          split: sum.splits if_splits)
qed

lemma vPlan_ends:
  "vPlan d xs ys cands = Inr segs \<Longrightarrow>
     \<forall>s \<in> set segs. lineEnds xs ys (seg_key s) = (seg_x1 s, seg_y1 s, seg_x2 s, seg_y2 s)
        \<and> lineEnds xs ys (seg_keyD s) = (seg_x1 s, seg_y1 s, seg_x2 s, seg_y2 s)
        \<and> \<not> secondStroke (seg_key s) \<and> secondStroke (seg_keyD s)"
proof (induction cands arbitrary: segs)
  case Nil
  then show ?case by simp
next
  case (Cons p cands)
  obtain c r where p: "p = (c, r)" by (cases p)
  from Cons.prems show ?case
    unfolding p
    by (auto simp: lineEnds_def secondStroke_def dest!: Cons.IH
          split: sum.splits if_splits)
qed

lemma distinct_rect: "distinct (rect r0 r1 c0 c1)"
  by (simp add: rect_def distinct_product)

lemma distinct_planned:
  assumes "distinct (map seg_key segs)" "distinct (map seg_keyD segs)"
    and "\<forall>s \<in> set segs. \<not> secondStroke (seg_key s) \<and> secondStroke (seg_keyD s)"
  shows "distinct (planned cfg segs)"
  using assms
proof (induction segs)
  case Nil
  show ?case by (simp add: planned_def)
next
  case (Cons s segs)
  have ih: "distinct (planned cfg segs)" using Cons by simp
  have sub: "set (planned cfg segs) \<subseteq> seg_key ` set segs \<union> seg_keyD ` set segs"
    by (auto simp: planned_keys split: if_splits)
  have k: "seg_key s \<notin> seg_key ` set segs" "seg_keyD s \<notin> seg_keyD ` set segs"
    using Cons.prems(1,2) by simp_all
  have x: "seg_key s \<notin> seg_keyD ` set segs" "seg_keyD s \<notin> seg_key ` set segs"
      "seg_key s \<noteq> seg_keyD s"
    using Cons.prems(3) by auto
  have "seg_key s \<notin> set (planned cfg segs)" "seg_keyD s \<notin> set (planned cfg segs)"
    using sub k x by blast+
  moreover have "planned cfg (s # segs)
      = (if roughness cfg > 0.5 then [seg_key s, seg_keyD s] else [seg_key s]) @ planned cfg segs"
    by (simp add: planned_def)
  ultimately show ?case using ih x(3) by simp
qed

lemma plan_key_lists:
  assumes "map (\<lambda>s. (seg_key s, seg_keyD s)) segs = map f cands"
  shows "map seg_key segs = map (fst \<circ> f) cands"
    and "map seg_keyD segs = map (snd \<circ> f) cands"
proof -
  have "map seg_key segs = map fst (map (\<lambda>s. (seg_key s, seg_keyD s)) segs)"
    by (simp add: comp_def)
  then show "map seg_key segs = map (fst \<circ> f) cands"
    unfolding assms by simp
  have "map seg_keyD segs = map snd (map (\<lambda>s. (seg_key s, seg_keyD s)) segs)"
    by (simp add: comp_def)
  then show "map seg_keyD segs = map (snd \<circ> f) cands"
    unfolding assms by simp
qed

lemma paths_strokes:
  assumes inv: "grid_inv d"
      and lens: "length xs = Suc (ncols d)" "length ys = Suc (length d)"
  shows "\<exists>lines n'. paths d xs ys cfg rnd n = Inr (lines, n')
           \<and> (\<forall>r c. HKey r c \<in> el_key ` set lines \<longleftrightarrow>
                  r \<le> length d \<and> c < ncols d \<and> shouldDrawH d r c = Inr True)
           \<and> (\<forall>c r. VKey c r \<in> el_key ` set lines \<longleftrightarrow>
                  c \<le> ncols d \<and> r < length d \<and> shouldDrawV d c r = Inr True)
           \<and> (\<forall>r c. HKeyD r c \<in> el_key ` set lines \<longleftrightarrow>
                  roughness cfg > 0.5 \<and> r \<le> length d \<and> c < ncols d
                  \<and> shouldDrawH d r c = Inr True)
           \<and> (\<forall>c r. VKeyD c r \<in> el_key ` set lines \<longleftrightarrow>
                  roughness cfg > 0.5 \<and> c \<le> ncols d \<and> r < length d
                  \<and> shouldDrawV d c r = Inr True)
           \<and> distinct (map el_key lines)
           \<and> n' = n + 5 * length lines
           \<and> (\<forall>i < length lines.
                  lines ! i = strokeAt xs ys cfg rnd (n + 5 * i) (el_key (lines ! i)))"
proof -
  let ?hc = "rect 0 (length d + 1) 0 (ncols d)"
  let ?vc = "rect 0 (ncols d + 1) 0 (length d)"
  let ?hf = "filter (\<lambda>(r, c). shouldDrawH d r c = Inr True) ?hc"
  let ?vf = "filter (\<lambda>(c, r). shouldDrawV d c r = Inr True) ?vc"
  have "\<forall>(r, c) \<in> set ?hc.
          (\<exists>b. shouldDrawH d r c = Inr b) \<and> c + 1 < length xs \<and> r < length ys"
    using shouldDrawH_total [OF inv] lens by (auto simp: set_rect)
  from hPlan_keys [OF this]
  obtain hs where hs: "hPlan d xs ys ?hc = Inr hs"
      "map (\<lambda>s. (seg_key s, seg_keyD s)) hs = map (\<lambda>(r, c). (HKey r c, HKeyD r c)) ?hf"
    by blast
  have "\<forall>(c, r) \<in> set ?vc.
          (\<exists>b. shouldDrawV d c r = Inr b) \<and> c < length xs \<and> r + 1 < length ys"
    using shouldDrawV_total [OF inv] lens by (auto simp: set_rect)
  from vPlan_keys [OF this]
  obtain vs where vs: "vPlan d xs ys ?vc = Inr vs"
      "map (\<lambda>s. (seg_key s, seg_keyD s)) vs = map (\<lambda>(c, r). (VKey c r, VKeyD c r)) ?vf"
    by blast
  have plan: "segmentPlan d xs ys = Inr (hs @ vs)"
    unfolding segmentPlan_def hs(1) vs(1) by simp
  have ends: "\<forall>s \<in> set (hs @ vs).
      lineEnds xs ys (seg_key s) = (seg_x1 s, seg_y1 s, seg_x2 s, seg_y2 s)
      \<and> lineEnds xs ys (seg_keyD s) = (seg_x1 s, seg_y1 s, seg_x2 s, seg_y2 s)
      \<and> \<not> secondStroke (seg_key s) \<and> secondStroke (seg_keyD s)"
    using hPlan_ends [OF hs(1)] vPlan_ends [OF vs(1)] by auto
  from strokeAll_strokeAt [OF ends, of n n "[]" cfg rnd]
  obtain lines n' where st: "strokeAll cfg rnd (hs @ vs) ([], n) = (lines, n')"
      and cnt: "n' = n + 5 * length lines"
      and el: "\<forall>i < length lines.
                  lines ! i = strokeAt xs ys cfg rnd (n + 5 * i) (el_key (lines ! i))"
    by auto
  have p: "paths d xs ys cfg rnd n = Inr (lines, n')"
    by (simp add: paths_plan plan st)
  have kl: "map el_key lines = planned cfg (hs @ vs)"
    using keys_strokeAll [of cfg rnd "hs @ vs" n] st by simp
  have dh: "distinct ?hf" "distinct ?vf" by (simp_all add: distinct_rect)
  have d1: "distinct (map seg_key (hs @ vs))"
    unfolding map_append plan_key_lists(1) [OF hs(2)] plan_key_lists(1) [OF vs(2)]
    using dh by (auto simp: distinct_map inj_on_def)
  have d2: "distinct (map seg_keyD (hs @ vs))"
    unfolding map_append plan_key_lists(2) [OF hs(2)] plan_key_lists(2) [OF vs(2)]
    using dh by (auto simp: distinct_map inj_on_def)
  have dist: "distinct (map el_key lines)"
    unfolding kl using d1 d2 ends by (intro distinct_planned) auto
  from kl have "el_key ` set lines = set (planned cfg (hs @ vs))"
    by (metis set_map)
  then have keys: "el_key ` set lines
      = seg_key ` set hs \<union> seg_key ` set vs
        \<union> (if roughness cfg > 0.5 then seg_keyD ` set hs \<union> seg_keyD ` set vs else {})"
    by (auto simp: planned_keys)
  have hk1: "k \<in> seg_key ` set hs \<longleftrightarrow>
      (\<exists>r c. k = HKey r c \<and> r \<le> length d \<and> c < ncols d \<and> shouldDrawH d r c = Inr True)" for k
    unfolding plan_key_sets(1) [OF hs(2)] by (force simp: set_rect)
  have hk2: "k \<in> seg_keyD ` set hs \<longleftrightarrow>
      (\<exists>r c. k = HKeyD r c \<and> r \<le> length d \<and> c < ncols d \<and> shouldDrawH d r c = Inr True)" for k
    unfolding plan_key_sets(2) [OF hs(2)] by (force simp: set_rect)
  have vk1: "k \<in> seg_key ` set vs \<longleftrightarrow>
      (\<exists>c r. k = VKey c r \<and> c \<le> ncols d \<and> r < length d \<and> shouldDrawV d c r = Inr True)" for k
    unfolding plan_key_sets(1) [OF vs(2)] by (force simp: set_rect)
  have vk2: "k \<in> seg_keyD ` set vs \<longleftrightarrow>
      (\<exists>c r. k = VKeyD c r \<and> c \<le> ncols d \<and> r < length d \<and> shouldDrawV d c r = Inr True)" for k
    unfolding plan_key_sets(2) [OF vs(2)] by (force simp: set_rect)
  have mem: "k \<in> el_key ` set lines \<longleftrightarrow>
      k \<in> seg_key ` set hs \<or> k \<in> seg_key ` set vs
      \<or> (roughness cfg > 0.5 \<and> (k \<in> seg_keyD ` set hs \<or> k \<in> seg_keyD ` set vs))" for k
    unfolding keys by auto
  have H: "\<forall>r c. HKey r c \<in> el_key ` set lines \<longleftrightarrow>
             r \<le> length d \<and> c < ncols d \<and> shouldDrawH d r c = Inr True"
    unfolding mem hk1 hk2 vk1 vk2 by auto
  have V: "\<forall>c r. VKey c r \<in> el_key ` set lines \<longleftrightarrow>
             c \<le> ncols d \<and> r < length d \<and> shouldDrawV d c r = Inr True"
    unfolding mem hk1 hk2 vk1 vk2 by auto
  have HD: "\<forall>r c. HKeyD r c \<in> el_key ` set lines \<longleftrightarrow>
             roughness cfg > 0.5 \<and> r \<le> length d \<and> c < ncols d \<and> shouldDrawH d r c = Inr True"
    unfolding mem hk1 hk2 vk1 vk2 by auto
  have VD: "\<forall>c r. VKeyD c r \<in> el_key ` set lines \<longleftrightarrow>
             roughness cfg > 0.5 \<and> c \<le> ncols d \<and> r < length d \<and> shouldDrawV d c r = Inr True"
    unfolding mem hk1 hk2 vk1 vk2 by auto
  show ?thesis
    by (intro exI [of _ lines] exI [of _ n'] conjI) (rule p H V HD VD dist cnt el)+
qed

lemma covers_span:
  assumes inv: "grid_inv d" and cov: "covers d R C r c"
  shows "1 \<le> rowSpan (d ! R ! C) \<and> 1 \<le> colSpan (d ! R ! C)
         \<and> R + rowSpan (d ! R ! C) \<le> length d \<and> C + colSpan (d ! R ! C) \<le> ncols d
         \<and> R < length d \<and> C < ncols d \<and> r < length d \<and> c < ncols d"
proof -
  note p = covers_in_positions [OF inv cov]
  from p have "cell_ok d R C" using grid_inv_cell [OF inv] by simp
  with cov p show ?thesis by (auto simp: cell_ok_def covers_def Let_def)
qed

lemma covers_other:
  "covers d R C r c \<Longrightarrow> R \<le> r' \<Longrightarrow> r' < R + rowSpan (d ! R ! C)
     \<Longrightarrow> C \<le> c' \<Longrightarrow> c' < C + colSpan (d ! R ! C) \<Longrightarrow> covers d R C r' c'"
  by (simp add: covers_def)

lemma interiorH:
  assumes inv: "grid_inv d" and cov: "covers d R C r c" and int: "R < r"
  shows "shouldDrawH d r c = Inr False"
proof -
  note sp = covers_span [OF inv cov]
  have r: "0 < r" "r < length d" and c: "c < ncols d" using int sp by auto
  from shouldDrawH_inner [OF inv r c]
  obtain oR oC where o: "covers d oR oC (r - 1) c"
      "shouldDrawH d r c = Inr (oR + rowSpan (d ! oR ! oC) \<le> r)"
    by blast
  have "covers d R C (r - 1) c"
    using cov int by (auto simp: covers_def)
  from covers_unique [OF inv o(1) this] have "oR = R" "oC = C" by simp_all
  with o(2) cov show ?thesis by (simp add: covers_def)
qed

lemma topH:
  assumes inv: "grid_inv d" and cov: "covers d R C r c"
  shows "shouldDrawH d R c = Inr True"
proof (cases "R = 0")
  case True
  then show ?thesis by (simp add: shouldDrawH_def)
next
  case False
  note sp = covers_span [OF inv cov]
  have r: "0 < R" "R < length d" and c: "c < ncols d" using False sp by auto
  from shouldDrawH_inner [OF inv r c]
  obtain oR oC where o: "covers d oR oC (R - 1) c"
      "shouldDrawH d R c = Inr (oR + rowSpan (d ! oR ! oC) \<le> R)"
    by blast
  have "oR + rowSpan (d ! oR ! oC) \<le> R"
  proof (rule ccontr)
    assume "\<not> oR + rowSpan (d ! oR ! oC) \<le> R"
    with o(1) have a: "covers d oR oC R c" by (auto simp: covers_def)
    have b: "covers d R C R c" using cov sp by (auto simp: covers_def)
    from covers_unique [OF inv a b] have "oR = R" by simp
    with o(1) r show False by (auto simp: covers_def)
  qed
  with o(2) show ?thesis by simp
qed

lemma bottomH:
  assumes inv: "grid_inv d" and cov: "covers d R C r c"
  shows "shouldDrawH d (R + rowSpan (d ! R ! C)) c = Inr True"
proof (cases "R + rowSpan (d ! R ! C) = length d")
  case True
  then show ?thesis by (simp add: shouldDrawH_def)
next
  case False
  note sp = covers_span [OF inv cov]
  let ?r = "R + rowSpan (d ! R ! C)"
  have r: "0 < ?r" "?r < length d" and c: "c < ncols d" using False sp by auto
  from shouldDrawH_inner [OF inv r c]
  obtain oR oC where o: "covers d oR oC (?r - 1) c"
      "shouldDrawH d ?r c = Inr (oR + rowSpan (d ! oR ! oC) \<le> ?r)"
    by blast
  have "covers d R C (?r - 1) c"
    using cov sp by (auto simp: covers_def)
  from covers_unique [OF inv o(1) this] have "oR = R" "oC = C" by simp_all
  with o(2) show ?thesis by simp
qed

lemma interiorV:
  assumes inv: "grid_inv d" and cov: "covers d R C r c" and int: "C < c"
  shows "shouldDrawV d c r = Inr False"
proof -
  note sp = covers_span [OF inv cov]
  have c: "0 < c" "c < ncols d" and r: "r < length d" using int sp by auto
  from shouldDrawV_inner [OF inv c r]
  obtain oR oC where o: "covers d oR oC r (c - 1)"
      "shouldDrawV d c r = Inr (oC + colSpan (d ! oR ! oC) \<le> c)"
    by blast
  have "covers d R C r (c - 1)"
    using cov int by (auto simp: covers_def)
  from covers_unique [OF inv o(1) this] have "oR = R" "oC = C" by simp_all
  with o(2) cov show ?thesis by (simp add: covers_def)
qed

lemma leftV:
  assumes inv: "grid_inv d" and cov: "covers d R C r c"
  shows "shouldDrawV d C r = Inr True"
proof (cases "C = 0")
  case True
  then show ?thesis by (simp add: shouldDrawV_def)
next
  case False
  note sp = covers_span [OF inv cov]
  have c: "0 < C" "C < ncols d" and r: "r < length d" using False sp by auto
  from shouldDrawV_inner [OF inv c r]
  obtain oR oC where o: "covers d oR oC r (C - 1)"
      "shouldDrawV d C r = Inr (oC + colSpan (d ! oR ! oC) \<le> C)"
    by blast
  have "oC + colSpan (d ! oR ! oC) \<le> C"
  proof (rule ccontr)
    assume "\<not> oC + colSpan (d ! oR ! oC) \<le> C"
    with o(1) have a: "covers d oR oC r C" by (auto simp: covers_def)
    have b: "covers d R C r C" using cov sp by (auto simp: covers_def)
    from covers_unique [OF inv a b] have "oC = C" by simp
    with o(1) c show False by (auto simp: covers_def)
  qed
  with o(2) show ?thesis by simp
qed

lemma rightV:
  assumes inv: "grid_inv d" and cov: "covers d R C r c"
  shows "shouldDrawV d (C + colSpan (d ! R ! C)) r = Inr True"
proof (cases "C + colSpan (d ! R ! C) = ncols d")
  case True
  then show ?thesis by (simp add: shouldDrawV_def)
next
  case False
  note sp = covers_span [OF inv cov]
  let ?c = "C + colSpan (d ! R ! C)"
  have c: "0 < ?c" "?c < ncols d" and r: "r < length d" using False sp by auto
  from shouldDrawV_inner [OF inv c r]
  obtain oR oC where o: "covers d oR oC r (?c - 1)"
      "shouldDrawV d ?c r = Inr (oC + colSpan (d ! oR ! oC) \<le> ?c)"
    by blast
  have "covers d R C r (?c - 1)"
    using cov sp by (auto simp: covers_def)
  from covers_unique [OF inv o(1) this] have "oR = R" "oC = C" by simp_all
  with o(2) show ?thesis by simp
qed

lemma shouldDrawH_rule:
  assumes inv: "grid_inv d" and r: "r \<le> length d" and c: "c < ncols d"
  shows "shouldDrawH d r c = Inr True \<longleftrightarrow>
           r = 0 \<or> r = length d
           \<or> (\<exists>e cell. getCellAt d (r - 1) c = Inr (Some e) \<and> eff_cell e = Some cell
                 \<and> eff_r e + rowSpan cell \<le> r)"
proof (cases "r = 0 \<or> r = length d")
  case True
  then show ?thesis by (auto simp: shouldDrawH_def)
next
  case False
  then have "0 < r" "r < length d" using r by auto
  from shouldDrawH_inner [OF inv this c] False show ?thesis by auto
qed

lemma shouldDrawV_rule:
  assumes inv: "grid_inv d" and c: "c \<le> ncols d" and r: "r < length d"
  shows "shouldDrawV d c r = Inr True \<longleftrightarrow>
           c = 0 \<or> c = ncols d
           \<or> (\<exists>e cell. getCellAt d r (c - 1) = Inr (Some e) \<and> eff_cell e = Some cell
                 \<and> eff_c e + colSpan cell \<le> c)"
proof (cases "c = 0 \<or> c = ncols d")
  case True
  then show ?thesis by (auto simp: shouldDrawV_def)
next
  case False
  then have "0 < c" "c < ncols d" using c by auto
  from shouldDrawV_inner [OF inv this r] False show ?thesis by auto
qed

lemma grid_inv_mergedABCD: "grid_inv mergedABCD"
proof -
  have pos: "positions mergedABCD = [(0, 0), (0, 1), (1, 0), (1, 1)]" by code_simp
  have ok: "cell_ok mergedABCD 0 0" "cell_ok mergedABCD 0 1"
           "cell_ok mergedABCD 1 0" "cell_ok mergedABCD 1 1"
    by code_simp+
  have cv: "\<forall>(R, C) \<in> set (positions mergedABCD). \<forall>(r, c) \<in> set (positions mergedABCD).
              covers mergedABCD R C r c \<longrightarrow> R = 0 \<and> C = 0"
    by code_simp
  have r: "rectangular mergedABCD" by code_simp
  have a: "\<forall>(r, c) \<in> set (positions mergedABCD). cell_ok mergedABCD r c"
    unfolding pos using ok by simp
  have b: "\<forall>(r, c) \<in> set (positions mergedABCD).
             \<forall>(R, C) \<in> set (positions mergedABCD). \<forall>(R', C') \<in> set (positions mergedABCD).
               covers mergedABCD R C r c \<and> covers mergedABCD R' C' r c \<longrightarrow> R = R' \<and> C = C'"
  proof (intro ballI, clarify)
    fix r c R C R' C'
    assume "(r, c) \<in> set (positions mergedABCD)" "(R, C) \<in> set (positions mergedABCD)"
      "(R', C') \<in> set (positions mergedABCD)"
      "covers mergedABCD R C r c" "covers mergedABCD R' C' r c"
    with cv have "R = 0 \<and> C = 0" "R' = 0 \<and> C' = 0" by fast+
    then show "R = R' \<and> C = C'" by simp
  qed
  from r a b show ?thesis unfolding grid_inv_def by (simp add: case_prod_beta)
qed

lemma strokeAt_near:
  assumes rnd: "\<forall>i. 0 \<le> rnd i \<and> rnd i < 1"
    and rough: "\<bar>roughness cfg\<bar> \<le> coordBound" and bow: "\<bar>bowing cfg\<bar> \<le> coordBound"
    and ends: "lineEnds xs ys k = (x1, y1, x2, y2)"
    and b: "\<bar>x1\<bar> \<le> coordBound" "\<bar>y1\<bar> \<le> coordBound" "\<bar>x2\<bar> \<le> coordBound" "\<bar>y2\<bar> \<le> coordBound"
  shows "nearSegment (roughness cfg) (bowing cfg) (lineEnds xs ys k)
           (el_d (strokeAt xs ys cfg rnd m k))"
  using getRoughPath_near [OF rnd rough bow b, of m]
  by (simp add: strokeAt_def ends)

lemma lineEnds_bounded:
  assumes xs: "\<forall>x \<in> set xs. \<bar>x\<bar> \<le> coordBound" and ys: "\<forall>y \<in> set ys. \<bar>y\<bar> \<le> coordBound"
    and k: "case k of HKey r c \<Rightarrow> c + 1 < length xs \<and> r < length ys
                    | HKeyD r c \<Rightarrow> c + 1 < length xs \<and> r < length ys
                    | VKey c r \<Rightarrow> c < length xs \<and> r + 1 < length ys
                    | VKeyD c r \<Rightarrow> c < length xs \<and> r + 1 < length ys"
  shows "\<exists>x1 y1 x2 y2. lineEnds xs ys k = (x1, y1, x2, y2)
           \<and> \<bar>x1\<bar> \<le> coordBound \<and> \<bar>y1\<bar> \<le> coordBound \<and> \<bar>x2\<bar> \<le> coordBound \<and> \<bar>y2\<bar> \<le> coordBound"
proof -
  have x: "i < length xs \<Longrightarrow> \<bar>xs ! i\<bar> \<le> coordBound" for i using xs nth_mem by blast
  have y: "i < length ys \<Longrightarrow> \<bar>ys ! i\<bar> \<le> coordBound" for i using ys nth_mem by blast
  show ?thesis
    using k by (cases k) (simp_all add: lineEnds_def x y)
qed


text \<open>
  Claim C1. In a grid that satisfies the invariants of the data model, with offsets for
  every row and column boundary, \<open>paths\<close> succeeds, and:
  the horizontal segment at grid line \<open>r\<close>, column \<open>c\<close> is drawn exactly when \<open>r\<close> is the
  top or the bottom boundary of the grid or the owning cell found by \<open>getCellAt\<close> for the
  position above has a row span that ends at \<open>r\<close> or before; the vertical segments follow
  the same rule with the position to the left and the column span. For every visible cell
  \<open>(R, C)\<close> and every position \<open>(r, c)\<close> of its span rectangle, the segment above \<open>(r, c)\<close>
  is not drawn unless \<open>r\<close> is the first row of the rectangle, the segment to the left of
  \<open>(r, c)\<close> is not drawn unless \<open>c\<close> is its first column, and the segments of the top and
  bottom edges of the rectangle in column \<open>c\<close> and of its left and right edges in row \<open>r\<close>
  are drawn.

  The second stroke of a segment is drawn exactly when the segment is drawn and the
  roughness is above 0.5, so no second stroke is drawn inside a span rectangle either.
  No two path elements have the same key, and the pass draws five random values for each
  element. Every path element is the stroke of the segment that its key names: the element
  number \<open>i\<close> has the path that \<open>getRoughPath\<close> gives, with the roughness and bowing of the
  configuration and the random values from position \<open>n + 5 * i\<close> on, for the end points
  \<open>(xs ! c, ys ! r)\<close> and \<open>(xs ! (c + 1), ys ! r)\<close> of a horizontal segment and
  \<open>(xs ! c, ys ! r)\<close> and \<open>(xs ! c, ys ! (r + 1))\<close> of a vertical one, and the stroke colour,
  width and opacity of a first or a second stroke. When the random values are at least 0
  and below 1 and the offsets, the roughness and the bowing are at most \<open>coordBound\<close> in
  magnitude, every path follows its segment up to the jitter: its numbers are finite, it
  starts and ends within the roughness of the end points of the segment in each
  coordinate, and its control point is no farther from the midpoint of the segment than
  0.025 times the bowing times the length of the segment.
\<close>

theorem line_suppression:
  assumes inv: "grid_inv d"
      and lens: "length xs = Suc (ncols d)" "length ys = Suc (length d)"
  shows "\<exists>lines n'. paths d xs ys cfg rnd n = Inr (lines, n')
     \<and> (\<forall>r c. HKey r c \<in> el_key ` set lines \<longleftrightarrow>
           r \<le> length d \<and> c < ncols d
           \<and> (r = 0 \<or> r = length d
               \<or> (\<exists>e cell. getCellAt d (r - 1) c = Inr (Some e) \<and> eff_cell e = Some cell
                     \<and> eff_r e + rowSpan cell \<le> r)))
     \<and> (\<forall>c r. VKey c r \<in> el_key ` set lines \<longleftrightarrow>
           c \<le> ncols d \<and> r < length d
           \<and> (c = 0 \<or> c = ncols d
               \<or> (\<exists>e cell. getCellAt d r (c - 1) = Inr (Some e) \<and> eff_cell e = Some cell
                     \<and> eff_c e + colSpan cell \<le> c)))
     \<and> (\<forall>R C r c. covers d R C r c \<longrightarrow>
           (R < r \<longrightarrow> HKey r c \<notin> el_key ` set lines)
           \<and> (C < c \<longrightarrow> VKey c r \<notin> el_key ` set lines)
           \<and> HKey R c \<in> el_key ` set lines
           \<and> HKey (R + rowSpan (d ! R ! C)) c \<in> el_key ` set lines
           \<and> VKey C r \<in> el_key ` set lines
           \<and> VKey (C + colSpan (d ! R ! C)) r \<in> el_key ` set lines)
     \<and> (\<forall>r c. HKeyD r c \<in> el_key ` set lines \<longleftrightarrow>
           roughness cfg > 0.5 \<and> HKey r c \<in> el_key ` set lines)
     \<and> (\<forall>c r. VKeyD c r \<in> el_key ` set lines \<longleftrightarrow>
           roughness cfg > 0.5 \<and> VKey c r \<in> el_key ` set lines)
     \<and> (\<forall>R C r c. covers d R C r c \<longrightarrow>
           (R < r \<longrightarrow> HKeyD r c \<notin> el_key ` set lines)
           \<and> (C < c \<longrightarrow> VKeyD c r \<notin> el_key ` set lines))
     \<and> distinct (map el_key lines)
     \<and> n' = n + 5 * length lines
     \<and> (\<forall>i < length lines.
           lines ! i = strokeAt xs ys cfg rnd (n + 5 * i) (el_key (lines ! i)))
     \<and> ((\<forall>i. 0 \<le> rnd i \<and> rnd i < 1)
          \<and> \<bar>roughness cfg\<bar> \<le> coordBound \<and> \<bar>bowing cfg\<bar> \<le> coordBound
          \<and> (\<forall>x \<in> set xs. \<bar>x\<bar> \<le> coordBound) \<and> (\<forall>y \<in> set ys. \<bar>y\<bar> \<le> coordBound)
         \<longrightarrow> (\<forall>e \<in> set lines.
                nearSegment (roughness cfg) (bowing cfg) (lineEnds xs ys (el_key e)) (el_d e)))"
proof -
  from paths_strokes [OF inv lens, of cfg rnd n]
  obtain lines n' where p: "paths d xs ys cfg rnd n = Inr (lines, n')"
      and H0: "\<forall>r c. HKey r c \<in> el_key ` set lines \<longleftrightarrow>
                  r \<le> length d \<and> c < ncols d \<and> shouldDrawH d r c = Inr True"
      and V0: "\<forall>c r. VKey c r \<in> el_key ` set lines \<longleftrightarrow>
                  c \<le> ncols d \<and> r < length d \<and> shouldDrawV d c r = Inr True"
      and HD0: "\<forall>r c. HKeyD r c \<in> el_key ` set lines \<longleftrightarrow>
                  roughness cfg > 0.5 \<and> r \<le> length d \<and> c < ncols d
                  \<and> shouldDrawH d r c = Inr True"
      and VD0: "\<forall>c r. VKeyD c r \<in> el_key ` set lines \<longleftrightarrow>
                  roughness cfg > 0.5 \<and> c \<le> ncols d \<and> r < length d
                  \<and> shouldDrawV d c r = Inr True"
      and dist: "distinct (map el_key lines)"
      and cnt: "n' = n + 5 * length lines"
      and el: "\<forall>i < length lines.
                  lines ! i = strokeAt xs ys cfg rnd (n + 5 * i) (el_key (lines ! i))"
    by (elim exE conjE) (rule that)
  note H = H0 [rule_format] and V = V0 [rule_format]
    and HD = HD0 [rule_format] and VD = VD0 [rule_format]
  have H': "HKey r c \<in> el_key ` set lines \<longleftrightarrow>
           r \<le> length d \<and> c < ncols d
           \<and> (r = 0 \<or> r = length d
               \<or> (\<exists>e cell. getCellAt d (r - 1) c = Inr (Some e) \<and> eff_cell e = Some cell
                     \<and> eff_r e + rowSpan cell \<le> r))" for r c
    unfolding H using shouldDrawH_rule [OF inv, of r c] by blast
  have V': "VKey c r \<in> el_key ` set lines \<longleftrightarrow>
           c \<le> ncols d \<and> r < length d
           \<and> (c = 0 \<or> c = ncols d
               \<or> (\<exists>e cell. getCellAt d r (c - 1) = Inr (Some e) \<and> eff_cell e = Some cell
                     \<and> eff_c e + colSpan cell \<le> c))" for c r
    unfolding V using shouldDrawV_rule [OF inv, of c r] by blast
  have M: "(R < r \<longrightarrow> HKey r c \<notin> el_key ` set lines)
           \<and> (C < c \<longrightarrow> VKey c r \<notin> el_key ` set lines)
           \<and> HKey R c \<in> el_key ` set lines
           \<and> HKey (R + rowSpan (d ! R ! C)) c \<in> el_key ` set lines
           \<and> VKey C r \<in> el_key ` set lines
           \<and> VKey (C + colSpan (d ! R ! C)) r \<in> el_key ` set lines"
    if cov: "covers d R C r c" for R C r c
  proof -
    note sp = covers_span [OF inv cov]
    have 1: "R < r \<longrightarrow> HKey r c \<notin> el_key ` set lines"
      unfolding H using interiorH [OF inv cov] by auto
    have 2: "C < c \<longrightarrow> VKey c r \<notin> el_key ` set lines"
      unfolding V using interiorV [OF inv cov] by auto
    have 3: "HKey R c \<in> el_key ` set lines"
      unfolding H using topH [OF inv cov] sp by simp
    have 4: "HKey (R + rowSpan (d ! R ! C)) c \<in> el_key ` set lines"
      unfolding H using bottomH [OF inv cov] sp by simp
    have 5: "VKey C r \<in> el_key ` set lines"
      unfolding V using leftV [OF inv cov] sp by simp
    have 6: "VKey (C + colSpan (d ! R ! C)) r \<in> el_key ` set lines"
      unfolding V using rightV [OF inv cov] sp by simp
    from 1 2 3 4 5 6 show ?thesis by blast
  qed
  have HD': "HKeyD r c \<in> el_key ` set lines \<longleftrightarrow>
           roughness cfg > 0.5 \<and> HKey r c \<in> el_key ` set lines" for r c
    unfolding H HD by blast
  have VD': "VKeyD c r \<in> el_key ` set lines \<longleftrightarrow>
           roughness cfg > 0.5 \<and> VKey c r \<in> el_key ` set lines" for c r
    unfolding V VD by blast
  have MD: "(R < r \<longrightarrow> HKeyD r c \<notin> el_key ` set lines)
           \<and> (C < c \<longrightarrow> VKeyD c r \<notin> el_key ` set lines)"
    if cov: "covers d R C r c" for R C r c
    unfolding HD' VD' using M [OF cov] by blast
  have near: "nearSegment (roughness cfg) (bowing cfg) (lineEnds xs ys (el_key e)) (el_d e)"
    if rnd: "\<forall>i. 0 \<le> rnd i \<and> rnd i < 1"
      and rough: "\<bar>roughness cfg\<bar> \<le> coordBound" and bow: "\<bar>bowing cfg\<bar> \<le> coordBound"
      and bx: "\<forall>x \<in> set xs. \<bar>x\<bar> \<le> coordBound" and bys: "\<forall>y \<in> set ys. \<bar>y\<bar> \<le> coordBound"
      and e: "e \<in> set lines" for e
  proof -
    from e obtain i where i: "i < length lines" "e = lines ! i"
      by (auto simp: in_set_conv_nth)
    have se: "e = strokeAt xs ys cfg rnd (n + 5 * i) (el_key e)"
      using el i by simp
    have mem: "el_key e \<in> el_key ` set lines" using e by simp
    have "case el_key e of HKey r c \<Rightarrow> c + 1 < length xs \<and> r < length ys
                    | HKeyD r c \<Rightarrow> c + 1 < length xs \<and> r < length ys
                    | VKey c r \<Rightarrow> c < length xs \<and> r + 1 < length ys
                    | VKeyD c r \<Rightarrow> c < length xs \<and> r + 1 < length ys"
      using mem H V HD VD lens by (cases "el_key e") auto
    from lineEnds_bounded [OF bx bys this]
    obtain x1 y1 x2 y2 where le: "lineEnds xs ys (el_key e) = (x1, y1, x2, y2)"
        and b: "\<bar>x1\<bar> \<le> coordBound" "\<bar>y1\<bar> \<le> coordBound" "\<bar>x2\<bar> \<le> coordBound" "\<bar>y2\<bar> \<le> coordBound"
      by blast
    from strokeAt_near [OF rnd rough bow le b, of "n + 5 * i"] se
    show ?thesis by simp
  qed
  have Hall: "\<forall>r c. HKey r c \<in> el_key ` set lines \<longleftrightarrow>
           r \<le> length d \<and> c < ncols d
           \<and> (r = 0 \<or> r = length d
               \<or> (\<exists>e cell. getCellAt d (r - 1) c = Inr (Some e) \<and> eff_cell e = Some cell
                     \<and> eff_r e + rowSpan cell \<le> r))"
    by (intro allI) (rule H')
  have Vall: "\<forall>c r. VKey c r \<in> el_key ` set lines \<longleftrightarrow>
           c \<le> ncols d \<and> r < length d
           \<and> (c = 0 \<or> c = ncols d
               \<or> (\<exists>e cell. getCellAt d r (c - 1) = Inr (Some e) \<and> eff_cell e = Some cell
                     \<and> eff_c e + colSpan cell \<le> c))"
    by (intro allI) (rule V')
  have Mall: "\<forall>R C r c. covers d R C r c \<longrightarrow>
           (R < r \<longrightarrow> HKey r c \<notin> el_key ` set lines)
           \<and> (C < c \<longrightarrow> VKey c r \<notin> el_key ` set lines)
           \<and> HKey R c \<in> el_key ` set lines
           \<and> HKey (R + rowSpan (d ! R ! C)) c \<in> el_key ` set lines
           \<and> VKey C r \<in> el_key ` set lines
           \<and> VKey (C + colSpan (d ! R ! C)) r \<in> el_key ` set lines"
    by (intro allI impI) (rule M)
  have HDall: "\<forall>r c. HKeyD r c \<in> el_key ` set lines \<longleftrightarrow>
           roughness cfg > 0.5 \<and> HKey r c \<in> el_key ` set lines"
    by (intro allI) (rule HD')
  have VDall: "\<forall>c r. VKeyD c r \<in> el_key ` set lines \<longleftrightarrow>
           roughness cfg > 0.5 \<and> VKey c r \<in> el_key ` set lines"
    by (intro allI) (rule VD')
  have MDall: "\<forall>R C r c. covers d R C r c \<longrightarrow>
           (R < r \<longrightarrow> HKeyD r c \<notin> el_key ` set lines)
           \<and> (C < c \<longrightarrow> VKeyD c r \<notin> el_key ` set lines)"
    by (intro allI impI) (rule MD)
  have nearall: "(\<forall>i. 0 \<le> rnd i \<and> rnd i < 1)
          \<and> \<bar>roughness cfg\<bar> \<le> coordBound \<and> \<bar>bowing cfg\<bar> \<le> coordBound
          \<and> (\<forall>x \<in> set xs. \<bar>x\<bar> \<le> coordBound) \<and> (\<forall>y \<in> set ys. \<bar>y\<bar> \<le> coordBound)
         \<longrightarrow> (\<forall>e \<in> set lines.
                nearSegment (roughness cfg) (bowing cfg) (lineEnds xs ys (el_key e)) (el_d e))"
    using near by blast
  show ?thesis
    by (intro exI [of _ lines] exI [of _ n'] conjI)
       (rule p Hall Vall Mall HDall VDall MDall dist cnt el nearall)+
qed

theorem line_suppression_witness:
  "grid_inv mergedABCD
   \<and> length [0, 120, 240 :: real] = Suc (ncols mergedABCD)
   \<and> length [0, 50, 100 :: real] = Suc (length mergedABCD)
   \<and> covers mergedABCD 0 0 1 1
   \<and> (\<exists>lines n'. paths mergedABCD [0, 120, 240] [0, 50, 100] DEFAULT_CONFIG (\<lambda>i. 0) 0
                     = Inr (lines, n')
        \<and> HKey 1 1 \<notin> el_key ` set lines \<and> VKey 1 1 \<notin> el_key ` set lines
        \<and> HKey 0 1 \<in> el_key ` set lines \<and> HKey 2 1 \<in> el_key ` set lines
        \<and> VKey 0 1 \<in> el_key ` set lines \<and> VKey 2 1 \<in> el_key ` set lines
        \<and> HKeyD 1 1 \<notin> el_key ` set lines \<and> VKeyD 1 1 \<notin> el_key ` set lines
        \<and> HKeyD 0 1 \<in> el_key ` set lines \<and> VKeyD 2 1 \<in> el_key ` set lines
        \<and> distinct (map el_key lines) \<and> n' = 5 * length lines
        \<and> (\<exists>e. e \<in> set lines \<and> el_key e = HKey 0 1
               \<and> nearSegment 1.5 1.2 (120, 0, 240, 0) (el_d e)
               \<and> el_strokeWidth e = 2 \<and> el_opacity e = None)
        \<and> (\<exists>e. e \<in> set lines \<and> el_key e = VKeyD 2 1
               \<and> nearSegment 1.5 1.2 (240, 50, 240, 100) (el_d e)
               \<and> el_strokeWidth e = 1 \<and> el_opacity e = Some 0.6))"
proof -
  let ?xs = "[0, 120, 240 :: real]" and ?ys = "[0, 50, 100 :: real]"
  have inv: "grid_inv mergedABCD" by (rule grid_inv_mergedABCD)
  have lx: "length [0, 120, 240 :: real] = Suc (ncols mergedABCD)" by code_simp
  have ly: "length [0, 50, 100 :: real] = Suc (length mergedABCD)" by code_simp
  have cov: "covers mergedABCD 0 0 1 1" by code_simp
  have sp: "rowSpan (mergedABCD ! 0 ! 0) = 2" "colSpan (mergedABCD ! 0 ! 0) = 2"
    by (simp_all add: mergedABCD_def)
  have cfg: "roughness DEFAULT_CONFIG = 1.5" "bowing DEFAULT_CONFIG = 1.2"
      "strokeWidth DEFAULT_CONFIG = 2"
    by (simp_all add: DEFAULT_CONFIG_def)
  have hyp: "(\<forall>i :: nat. (0 :: real) \<le> 0 \<and> (0 :: real) < 1)
      \<and> \<bar>roughness DEFAULT_CONFIG\<bar> \<le> coordBound \<and> \<bar>bowing DEFAULT_CONFIG\<bar> \<le> coordBound
      \<and> (\<forall>x \<in> set ?xs. \<bar>x\<bar> \<le> coordBound) \<and> (\<forall>y \<in> set ?ys. \<bar>y\<bar> \<le> coordBound)"
    by (simp add: cfg coordBound_def)
  from line_suppression [OF inv lx ly, of DEFAULT_CONFIG "\<lambda>i. 0" 0]
  obtain lines n' where p: "paths mergedABCD ?xs ?ys DEFAULT_CONFIG (\<lambda>i. 0) 0 = Inr (lines, n')"
      and M: "\<forall>R C r c. covers mergedABCD R C r c \<longrightarrow>
           (R < r \<longrightarrow> HKey r c \<notin> el_key ` set lines)
           \<and> (C < c \<longrightarrow> VKey c r \<notin> el_key ` set lines)
           \<and> HKey R c \<in> el_key ` set lines
           \<and> HKey (R + rowSpan (mergedABCD ! R ! C)) c \<in> el_key ` set lines
           \<and> VKey C r \<in> el_key ` set lines
           \<and> VKey (C + colSpan (mergedABCD ! R ! C)) r \<in> el_key ` set lines"
      and HD: "\<forall>r c. HKeyD r c \<in> el_key ` set lines \<longleftrightarrow>
           roughness DEFAULT_CONFIG > 0.5 \<and> HKey r c \<in> el_key ` set lines"
      and VD: "\<forall>c r. VKeyD c r \<in> el_key ` set lines \<longleftrightarrow>
           roughness DEFAULT_CONFIG > 0.5 \<and> VKey c r \<in> el_key ` set lines"
      and dist: "distinct (map el_key lines)"
      and cnt: "n' = 0 + 5 * length lines"
      and el: "\<forall>i < length lines.
           lines ! i = strokeAt ?xs ?ys DEFAULT_CONFIG (\<lambda>i. 0) (0 + 5 * i) (el_key (lines ! i))"
      and near: "(\<forall>i :: nat. (0 :: real) \<le> 0 \<and> (0 :: real) < 1)
          \<and> \<bar>roughness DEFAULT_CONFIG\<bar> \<le> coordBound \<and> \<bar>bowing DEFAULT_CONFIG\<bar> \<le> coordBound
          \<and> (\<forall>x \<in> set ?xs. \<bar>x\<bar> \<le> coordBound) \<and> (\<forall>y \<in> set ?ys. \<bar>y\<bar> \<le> coordBound)
         \<longrightarrow> (\<forall>e \<in> set lines.
                nearSegment (roughness DEFAULT_CONFIG) (bowing DEFAULT_CONFIG)
                  (lineEnds ?xs ?ys (el_key e)) (el_d e))"
    by (elim exE conjE) (rule that)
  note Mi = M [rule_format, OF cov]
  have k: "HKey 1 1 \<notin> el_key ` set lines" "VKey 1 1 \<notin> el_key ` set lines"
      "HKey 0 1 \<in> el_key ` set lines" "HKey 2 1 \<in> el_key ` set lines"
      "VKey 0 1 \<in> el_key ` set lines" "VKey 2 1 \<in> el_key ` set lines"
    using Mi by (simp_all add: sp numeral_2_eq_2)
  have kd: "HKeyD 1 1 \<notin> el_key ` set lines" "VKeyD 1 1 \<notin> el_key ` set lines"
      "HKeyD 0 1 \<in> el_key ` set lines" "VKeyD 2 1 \<in> el_key ` set lines"
    using k by (simp_all add: HD [rule_format] VD [rule_format] cfg)
  have nr: "nearSegment 1.5 1.2 (lineEnds ?xs ?ys (el_key e)) (el_d e)" if "e \<in> set lines" for e
    using near [rule_format, OF hyp that] by (simp add: cfg)
  have attr: "el_strokeWidth e = (if secondStroke (el_key e) then 1 else 2)
      \<and> el_opacity e = (if secondStroke (el_key e) then Some 0.6 else None)"
    if "e \<in> set lines" for e
  proof -
    from that obtain i where i: "i < length lines" "e = lines ! i"
      by (auto simp: in_set_conv_nth)
    have "e = strokeAt ?xs ?ys DEFAULT_CONFIG (\<lambda>i. 0) (0 + 5 * i) (el_key e)"
      using el i by simp
    then have "el_strokeWidth e = el_strokeWidth (strokeAt ?xs ?ys DEFAULT_CONFIG (\<lambda>i. 0) (0 + 5 * i) (el_key e))"
      "el_opacity e = el_opacity (strokeAt ?xs ?ys DEFAULT_CONFIG (\<lambda>i. 0) (0 + 5 * i) (el_key e))"
      by simp_all
    then show ?thesis
      by (simp add: strokeAt_def cfg split: prod.splits)
  qed
  from k(3) obtain e1 where e1: "e1 \<in> set lines" "el_key e1 = HKey 0 1" by auto
  from kd(4) obtain e2 where e2: "e2 \<in> set lines" "el_key e2 = VKeyD 2 1" by auto
  have w1: "\<exists>e. e \<in> set lines \<and> el_key e = HKey 0 1
               \<and> nearSegment 1.5 1.2 (120, 0, 240, 0) (el_d e)
               \<and> el_strokeWidth e = 2 \<and> el_opacity e = None"
    using e1 nr [OF e1(1)] attr [OF e1(1)]
    by (intro exI [of _ e1]) (simp add: lineEnds_def secondStroke_def)
  have w2: "\<exists>e. e \<in> set lines \<and> el_key e = VKeyD 2 1
               \<and> nearSegment 1.5 1.2 (240, 50, 240, 100) (el_d e)
               \<and> el_strokeWidth e = 1 \<and> el_opacity e = Some 0.6"
    using e2 nr [OF e2(1)] attr [OF e2(1)]
    by (intro exI [of _ e2]) (simp add: lineEnds_def secondStroke_def numeral_2_eq_2)
  have c': "n' = 5 * length lines" using cnt by simp
  have "\<exists>lines n'. paths mergedABCD [0, 120, 240] [0, 50, 100] DEFAULT_CONFIG (\<lambda>i. 0) 0
                     = Inr (lines, n')
        \<and> HKey 1 1 \<notin> el_key ` set lines \<and> VKey 1 1 \<notin> el_key ` set lines
        \<and> HKey 0 1 \<in> el_key ` set lines \<and> HKey 2 1 \<in> el_key ` set lines
        \<and> VKey 0 1 \<in> el_key ` set lines \<and> VKey 2 1 \<in> el_key ` set lines
        \<and> HKeyD 1 1 \<notin> el_key ` set lines \<and> VKeyD 1 1 \<notin> el_key ` set lines
        \<and> HKeyD 0 1 \<in> el_key ` set lines \<and> VKeyD 2 1 \<in> el_key ` set lines
        \<and> distinct (map el_key lines) \<and> n' = 5 * length lines
        \<and> (\<exists>e. e \<in> set lines \<and> el_key e = HKey 0 1
               \<and> nearSegment 1.5 1.2 (120, 0, 240, 0) (el_d e)
               \<and> el_strokeWidth e = 2 \<and> el_opacity e = None)
        \<and> (\<exists>e. e \<in> set lines \<and> el_key e = VKeyD 2 1
               \<and> nearSegment 1.5 1.2 (240, 50, 240, 100) (el_d e)
               \<and> el_strokeWidth e = 1 \<and> el_opacity e = Some 0.6)"
    by (intro exI [of _ lines] exI [of _ n'] conjI) (rule p k kd dist c' w1 w2)+
  with inv lx ly cov show ?thesis by (intro conjI)
qed

end
